theory Spec2Isabelle
  imports Complex_Main
begin

section \<open>Data model of \<open>src/env.py\<close>\<close>

text \<open>
  The exceptions that the modelled code can raise. \<open>StopIteration\<close> comes from
  \<open>next\<close> on an exhausted iterator, \<open>IndexError\<close> from tensor indexing with an index
  outside its dimension, \<open>IndexOverflow\<close> is the overflow error that tensor indexing
  raises instead when an index does not fit a signed 64-bit integer,
  \<open>ZeroDivisionError\<close> comes from \<open>divmod\<close>, \<open>ShapeError\<close> from an elementwise operation
  on tensors of different shapes.
\<close>

datatype error =
  StopIteration | IndexError | IndexOverflow | ZeroDivisionError | ShapeError | EmptyDatasetError

text \<open>
  An image tensor of shape \<open>[1, C, H, W]\<close> (one image per batch, as the data loader of the
  source is built with \<open>batch_size=1\<close>): \<open>dims\<close> is \<open>(C, H, W)\<close> and \<open>elems\<close> is the
  contiguous row-major storage, so that entry \<open>[0, c, x, y]\<close> is stored at offset
  \<open>(c * H + x) * W + y\<close>. Pixel intensities and class logits are real numbers: the
  rounding of floating point is not modelled, its overflow is (see \<open>fnum\<close> below).
\<close>

record tensor =
  dims :: "nat \<times> nat \<times> nat"
  elems :: "real list"

definition numel :: "nat \<times> nat \<times> nat \<Rightarrow> nat" where
  "numel shp = (case shp of (C, H, W) \<Rightarrow> C * H * W)"

definition wf_tensor :: "tensor \<Rightarrow> bool" where
  "wf_tensor t \<longleftrightarrow> length (elems t) = numel (dims t)"

definition offset :: "nat \<times> nat \<times> nat \<Rightarrow> nat \<Rightarrow> nat \<Rightarrow> nat \<Rightarrow> nat" where
  "offset shp c x y = (case shp of (C, H, W) \<Rightarrow> (c * H + x) * W + y)"

definition pixel :: "tensor \<Rightarrow> nat \<Rightarrow> nat \<Rightarrow> nat \<Rightarrow> real" where
  "pixel t c x y = elems t ! offset (dims t) c x y"

text \<open>One batch of the data loader: an image and its integer class label.\<close>

type_synonym sample = "tensor \<times> nat"

text \<open>
  The attributes of \<open>ImagePerturbEnv\<close>. The iterator \<open>self.dataloader\<close> is an object of
  the caller; its state has the type \<open>'d\<close> and its \<open>__next__\<close> method is the parameter
  \<open>nxt\<close> of the operations below. \<open>self.model\<close> followed by the selection of row 0 is
  a function from an image to the list of class logits. \<open>action_space\<close> is the size
  \<open>n\<close> of \<open>Discrete(n)\<close>, \<open>observation_space\<close> the shape of the \<open>Box\<close>.
  The attribute \<open>image\<close> is the field \<open>image_cur\<close> and \<open>lambda_\<close> the field
  \<open>lambda_coef\<close>, as the source's names are not available here. Counter and budget
  are Python integers.
\<close>

record 'd env =
  dataloader :: 'd
  model :: "tensor \<Rightarrow> real list"
  image_cur :: tensor
  target_class :: nat
  original_image :: tensor
  image_shape :: "nat \<times> nat \<times> nat"
  action_space :: nat
  observation_space :: "nat \<times> nat \<times> nat"
  attack_budget :: int
  lambda_coef :: real
  current_attack_count :: int

type_synonym 'd next_fn = "'d \<Rightarrow> error + (sample \<times> 'd)"

section \<open>Operations\<close>

subsection \<open>Tensor indexing\<close>

text \<open>
  \<open>t[0, c, x, y] = 0\<close> on a copy of \<open>t\<close>. Each index is checked against its own
  dimension; an index \<open>i\<close> with \<open>-n \<le> i < 0\<close> addresses position \<open>i + n\<close>. The indices
  are Python integers of any size, which the tensor library converts to signed 64-bit
  integers: an index outside \<open>[-2^63, 2^63)\<close> raises the overflow error of that
  conversion, any other index outside \<open>[-n, n)\<close> raises \<open>IndexError\<close>. A dimension of a
  tensor is itself a signed 64-bit integer, so an index inside its dimension always fits,
  and the test of the dimensions can be written first.
\<close>

definition fits_int64 :: "int \<Rightarrow> bool" where
  "fits_int64 i \<longleftrightarrow> - (2 ^ 63) \<le> i \<and> i < 2 ^ 63"

definition in_dim :: "nat \<Rightarrow> int \<Rightarrow> bool" where
  "in_dim n i \<longleftrightarrow> - int n \<le> i \<and> i < int n"

definition wrap_index :: "nat \<Rightarrow> int \<Rightarrow> nat" where
  "wrap_index n i = nat (if i < 0 then i + int n else i)"

definition set_pixel :: "tensor \<Rightarrow> int \<Rightarrow> int \<Rightarrow> int \<Rightarrow> error + tensor" where
  "set_pixel t c x y =
     (case dims t of (C, H, W) \<Rightarrow>
        if in_dim C c \<and> in_dim H x \<and> in_dim W y
        then Inr (t\<lparr>elems := (elems t)[offset (dims t) (wrap_index C c) (wrap_index H x) (wrap_index W y) := 0]\<rparr>)
        else if fits_int64 c \<and> fits_int64 x \<and> fits_int64 y then Inl IndexError
        else Inl IndexOverflow)"

subsection \<open>Action decoding (lines 89 to 92 of \<open>step\<close>)\<close>

text \<open>
  \<open>channel, temp = divmod(action, H * W)\<close> and \<open>x, y = divmod(temp, W)\<close>, with
  Python's floor division; \<open>divmod\<close> by zero raises.
\<close>

definition decode_action :: "nat \<times> nat \<times> nat \<Rightarrow> int \<Rightarrow> error + (int \<times> int \<times> int)" where
  "decode_action shp action =
     (case shp of (C, H, W) \<Rightarrow>
        if H * W = 0 then Inl ZeroDivisionError
        else let channel = action div int (H * W);
                 temp = action mod int (H * W)
             in if W = 0 then Inl ZeroDivisionError
                else Inr (channel, temp div int W, temp mod int W))"

subsection \<open>The reward\<close>

text \<open>
  The value of a double-precision operation: a finite number, an infinity or not-a-number.
  An operation whose exact result lies beyond the largest double overflows to an infinity;
  within the range the exact result stands for the rounded one.
\<close>

datatype fnum = Finite real | PosInf | NegInf | NaN

definition max_double :: real where
  "max_double = (2 - 1 / 2 ^ 52) * 2 ^ 1023"

definition to_double :: "real \<Rightarrow> fnum" where
  "to_double r = (if max_double < r then PosInf else if r < - max_double then NegInf else Finite r)"

text \<open>\<open>np.exp\<close> of a finite double.\<close>

definition np_exp :: "real \<Rightarrow> fnum" where
  "np_exp x = to_double (exp x)"

text \<open>The product of a finite double with the value of \<open>np.exp\<close>.\<close>

definition fmul :: "real \<Rightarrow> fnum \<Rightarrow> fnum" where
  "fmul a b =
     (case b of
        Finite v \<Rightarrow> to_double (a * v)
      | PosInf \<Rightarrow> (if a = 0 then NaN else if 0 < a then PosInf else NegInf)
      | NegInf \<Rightarrow> (if a = 0 then NaN else if 0 < a then NegInf else PosInf)
      | NaN \<Rightarrow> NaN)"


text \<open>
  The softmax of finite logits. Its values lie strictly between 0 and 1 here; in single
  precision they can round to 0 and to 1, so only the closed bounds carry over.
\<close>

definition softmax :: "real list \<Rightarrow> real list" where
  "softmax zs = map (\<lambda>z. exp z / sum_list (map exp zs)) zs"

text \<open>\<open>F.softmax(model(img), dim=1)[0][target].item()\<close>\<close>

definition class_prob :: "(tensor \<Rightarrow> real list) \<Rightarrow> tensor \<Rightarrow> nat \<Rightarrow> error + real" where
  "class_prob mdl img target =
     (let probs = softmax (mdl img)
      in if target < length probs then Inr (probs ! target) else Inl IndexError)"

text \<open>\<open>torch.nonzero(perturbed_image - original_image).size(0)\<close>\<close>

definition sparsity :: "tensor \<Rightarrow> tensor \<Rightarrow> error + nat" where
  "sparsity original perturbed =
     (if dims perturbed = dims original \<and> length (elems perturbed) = length (elems original)
      then Inr (length (filter (\<lambda>d. d \<noteq> 0) (map2 (-) (elems perturbed) (elems original))))
      else Inl ShapeError)"

text \<open>
  The two probabilities are softmax outputs, their difference is a finite double, and the
  exponent \<open>-lambda_ * sparsity\<close> is passed to \<open>np.exp\<close>; an exponent that is itself
  beyond the largest double gives, up to rounding, the same result of \<open>np.exp\<close> as its
  exact value does (an infinity above, a number next to 0 below).
\<close>

definition compute_reward :: "'d env \<Rightarrow> tensor \<Rightarrow> tensor \<Rightarrow> error + fnum" where
  "compute_reward env original perturbed =
     (case class_prob (model env) original (target_class env) of
        Inl e \<Rightarrow> Inl e
      | Inr original_prob \<Rightarrow>
          (case class_prob (model env) perturbed (target_class env) of
             Inl e \<Rightarrow> Inl e
           | Inr perturbed_prob \<Rightarrow>
               (case sparsity original perturbed of
                  Inl e \<Rightarrow> Inl e
                | Inr n \<Rightarrow>
                    Inr (fmul (original_prob - perturbed_prob)
                           (np_exp (- lambda_coef env * real n))))))"

subsection \<open>\<open>reset\<close>, \<open>step\<close> and the constructor\<close>

definition reset :: "'d next_fn \<Rightarrow> 'd env \<Rightarrow> (error + tensor) \<times> 'd env" where
  "reset nxt env =
     (case nxt (dataloader env) of
        Inl e \<Rightarrow> (Inl e, env)
      | Inr ((img, label), d') \<Rightarrow>
          (Inr img,
           env\<lparr>dataloader := d', image_cur := img, target_class := label,
               original_image := img, current_attack_count := 0\<rparr>))"

text \<open>
  \<open>step\<close> returns the pair of its outcome and the state it leaves behind, so that the
  state after a raised exception is part of the model. The outcome of a call that returns
  is \<open>(perturbed_image, reward, done)\<close>; the fourth component of the source's tuple is
  the constant empty dictionary.
\<close>

definition step :: "'d next_fn \<Rightarrow> int \<Rightarrow> 'd env \<Rightarrow> (error + (tensor \<times> fnum \<times> bool)) \<times> 'd env" where
  "step nxt action env =
     (let env1 = env\<lparr>current_attack_count := current_attack_count env + 1\<rparr>
      in case decode_action (image_shape env1) action of
           Inl e \<Rightarrow> (Inl e, env1)
         | Inr (channel, x, y) \<Rightarrow>
             (case set_pixel (image_cur env1) channel x y of
                Inl e \<Rightarrow> (Inl e, env1)
              | Inr perturbed_image \<Rightarrow>
                  (case compute_reward env1 (image_cur env1) perturbed_image of
                     Inl e \<Rightarrow> (Inl e, env1)
                   | Inr reward \<Rightarrow>
                       if current_attack_count env1 \<ge> attack_budget env1
                       then (case reset nxt env1 of
                               (Inl e, env2) \<Rightarrow> (Inl e, env2)
                             | (Inr _, env2) \<Rightarrow>
                                 (Inr (perturbed_image, reward, True),
                                  env2\<lparr>image_cur := perturbed_image\<rparr>))
                       else (Inr (perturbed_image, reward, False),
                             env1\<lparr>image_cur := perturbed_image\<rparr>))))"

text \<open>
  The constructor \<open>__init__\<close>: it draws the first batch and derives the shape and the
  spaces from it. \<open>model.eval()\<close> and the logging calls do not change the attributes.
\<close>

definition init_env :: "'d next_fn \<Rightarrow> 'd \<Rightarrow> (tensor \<Rightarrow> real list) \<Rightarrow> int \<Rightarrow> real \<Rightarrow> error + 'd env" where
  "init_env nxt dl mdl budget lam =
     (case nxt dl of
        Inl e \<Rightarrow> Inl e
      | Inr ((img, label), d') \<Rightarrow>
          Inr \<lparr>dataloader = d', model = mdl, image_cur = img, target_class = label,
               original_image = img, image_shape = dims img,
               action_space = numel (dims img), observation_space = dims img,
               attack_budget = budget, lambda_coef = lam, current_attack_count = 0\<rparr>)"

text \<open>Consecutive calls of \<open>step\<close>, as a training loop makes them; the first exception ends the run.\<close>

fun steps :: "'d next_fn \<Rightarrow> int list \<Rightarrow> 'd env \<Rightarrow> (error + (tensor \<times> fnum \<times> bool) list) \<times> 'd env" where
  "steps nxt [] env = (Inr [], env)"
| "steps nxt (a # as) env =
     (case step nxt a env of
        (Inl e, env') \<Rightarrow> (Inl e, env')
      | (Inr r, env') \<Rightarrow>
          (case steps nxt as env' of
             (Inl e, env'') \<Rightarrow> (Inl e, env'')
           | (Inr rs, env'') \<Rightarrow> (Inr (r # rs), env'')))"

subsection \<open>Iterators\<close>

text \<open>\<open>iter(DataLoader(...))\<close> as in the main block of \<open>env.py\<close>: the batches not yet drawn.\<close>

definition next_plain :: "sample list next_fn" where
  "next_plain d = (case d of [] \<Rightarrow> Inl StopIteration | b # bs \<Rightarrow> Inr (b, bs))"

text \<open>
  Modelled from the spec: the endless data loader (\<open>EndlessDataLoader\<close> of
  \<open>src/utils.py\<close>) that \<open>train.py\<close> passes to the environment is not part of the
  sources at hand. The spec describes a wrapper that holds the finite source and a cursor
  into it, re-acquires a fresh iterator over the same source when the cursor is exhausted,
  and fails with an \<open>EmptyDatasetError\<close> when the source is empty. Per-cycle shuffling,
  which the spec calls optional, is left out.
\<close>

record 'a endless =
  source :: "'a list"
  cursor :: "'a list"

definition endless_loader :: "'a list \<Rightarrow> 'a endless" where
  "endless_loader xs = \<lparr>source = xs, cursor = xs\<rparr>"

definition next_endless :: "'a endless \<Rightarrow> error + ('a \<times> 'a endless)" where
  "next_endless e =
     (case cursor e of
        b # bs \<Rightarrow> Inr (b, e\<lparr>cursor := bs\<rparr>)
      | [] \<Rightarrow>
          (case source e of
             [] \<Rightarrow> Inl EmptyDatasetError
           | b # bs \<Rightarrow> Inr (b, e\<lparr>cursor := bs\<rparr>)))"

text \<open>\<open>n\<close> consecutive draws from an iterator; the first exception ends them.\<close>

fun draws :: "('d \<Rightarrow> error + ('a \<times> 'd)) \<Rightarrow> nat \<Rightarrow> 'd \<Rightarrow> error + ('a list \<times> 'd)" where
  "draws nxt 0 d = Inr ([], d)"
| "draws nxt (Suc n) d =
     (case nxt d of
        Inl e \<Rightarrow> Inl e
      | Inr (b, d') \<Rightarrow>
          (case draws nxt n d' of
             Inl e \<Rightarrow> Inl e
           | Inr (bs, d'') \<Rightarrow> Inr (b # bs, d'')))"

section \<open>Notions of the specification\<close>

text \<open>
  The inverse formula of the action decoding, \<open>channel * H * W + row * W + col\<close>.
\<close>

definition encode_action :: "nat \<times> nat \<times> nat \<Rightarrow> int \<Rightarrow> int \<Rightarrow> int \<Rightarrow> int" where
  "encode_action shp channel row col =
     (case shp of (C, H, W) \<Rightarrow> channel * int (H * W) + row * int W + col)"

text \<open>
  The canonical reward shape: \<open>(p_before - p_after) * exp(-lambda * sparsity)\<close>, where the
  two probabilities are the softmax probabilities of the target class.
\<close>

definition canonical_reward ::
  "(tensor \<Rightarrow> real list) \<Rightarrow> real \<Rightarrow> nat \<Rightarrow> tensor \<Rightarrow> tensor \<Rightarrow> nat \<Rightarrow> fnum" where
  "canonical_reward mdl lam target before after n =
     fmul (softmax (mdl before) ! target - softmax (mdl after) ! target) (np_exp (- lam * real n))"

text \<open>
  The pixel positions \<open>(channel, row, col)\<close> of a tensor, and those at which two tensors
  of one shape differ.
\<close>

definition positions :: "nat \<times> nat \<times> nat \<Rightarrow> (nat \<times> nat \<times> nat) list" where
  "positions shp =
     (case shp of (C, H, W) \<Rightarrow>
        concat (map (\<lambda>c. concat (map (\<lambda>x. map (\<lambda>y. (c, x, y)) [0..<W]) [0..<H])) [0..<C]))"

definition diff_positions :: "tensor \<Rightarrow> tensor \<Rightarrow> (nat \<times> nat \<times> nat) list" where
  "diff_positions s t =
     filter (\<lambda>(c, x, y). pixel s c x y \<noteq> pixel t c x y) (positions (dims s))"

text \<open>The tensor \<open>t\<close> with the entry at storage offset \<open>k\<close> set to 0.\<close>

definition zero_at :: "tensor \<Rightarrow> nat \<Rightarrow> tensor" where
  "zero_at t k = t\<lparr>elems := (elems t)[k := 0]\<rparr>"

text \<open>The number of entries that \<open>zero_at t k\<close> changes: one, or none when the entry is 0 already.\<close>

definition changed :: "tensor \<Rightarrow> nat \<Rightarrow> nat" where
  "changed t k = (if k < length (elems t) \<and> elems t ! k \<noteq> 0 then 1 else 0)"

section \<open>Concrete inputs\<close>

text \<open>
  Images of shape \<open>[1, 1, 1, 2]\<close>, a classifier with two classes that answers every
  image with the logits \<open>[0, 0]\<close>, and environments over them.
\<close>

definition image_a :: tensor where
  "image_a = \<lparr>dims = (1, 1, 2), elems = [1 / 2, 1 / 4]\<rparr>"

definition image_b :: tensor where
  "image_b = \<lparr>dims = (1, 1, 2), elems = [3 / 4, 1]\<rparr>"

definition image_black :: tensor where
  "image_black = \<lparr>dims = (1, 1, 2), elems = [0, 1 / 2]\<rparr>"

definition flat_model :: "tensor \<Rightarrow> real list" where
  "flat_model t = [0, 0]"

text \<open>A classifier whose first logit grows with the brightness of the image.\<close>

definition sum_model :: "tensor \<Rightarrow> real list" where
  "sum_model t = [sum_list (elems t), 0]"

definition env_of :: "'d \<Rightarrow> tensor \<Rightarrow> nat \<Rightarrow> int \<Rightarrow> 'd env" where
  "env_of d img label budget =
     \<lparr>dataloader = d, model = flat_model, image_cur = img, target_class = label,
      original_image = img, image_shape = dims img, action_space = numel (dims img),
      observation_space = dims img, attack_budget = budget, lambda_coef = 1,
      current_attack_count = 0\<rparr>"

section \<open>Auxiliary facts\<close>

subsection \<open>Floor division\<close>

lemma int_div_less:
  fixes a c n :: int
  assumes "0 < n" "a < c * n"
  shows "a div n < c"
proof (rule ccontr)
  assume "\<not> a div n < c"
  then have "c \<le> a div n" by simp
  then have "c * n \<le> (a div n) * n" using assms(1) by (simp add: mult_right_mono)
  also have "\<dots> \<le> a" using assms(1) by (metis div_mult_mod_eq le_add_same_cancel1 pos_mod_sign)
  finally show False using assms(2) by simp
qed

lemma int_div_ge:
  fixes a c n :: int
  assumes "0 < n" "c * n \<le> a"
  shows "c \<le> a div n"
proof (rule ccontr)
  assume "\<not> c \<le> a div n"
  then have "a div n + 1 \<le> c" by simp
  then have "(a div n + 1) * n \<le> c * n" using assms(1) by (simp only: mult_right_mono less_imp_le)
  moreover have "a < (a div n + 1) * n"
  proof -
    have "(a div n) * n + a mod n = a" by (rule div_mult_mod_eq)
    moreover have "a mod n < n" using assms(1) by simp
    ultimately have "a < (a div n) * n + n" by linarith
    then show ?thesis by (simp add: algebra_simps)
  qed
  ultimately show False using assms(2) by simp
qed

lemma int_divmod_offset:
  fixes q r n :: int
  assumes "0 \<le> r" "r < n"
  shows "(q * n + r) div n = q" and "(q * n + r) mod n = r"
  using assms by simp_all

text \<open>The decoded coordinates of an action, whatever its sign, when the image is not empty.\<close>

lemma decode_action_coords:
  assumes "0 < H * W"
  shows "\<exists>c x y. decode_action (C, H, W) a = Inr (c, x, y) \<and>
           c = a div int (H * W) \<and> 0 \<le> x \<and> x < int H \<and> 0 \<le> y \<and> y < int W \<and>
           c * int (H * W) + x * int W + y = a"
proof -
  from assms have W: "0 < W" and H: "0 < H" by auto
  let ?c = "a div int (H * W)" and ?t = "a mod int (H * W)"
  have t0: "0 \<le> ?t" using assms by simp
  have t1: "?t < int H * int W" using assms pos_mod_bound[of "int (H*W)" a] by simp
  have x0: "0 \<le> ?t div int W" using t0 W by (simp add: pos_imp_zdiv_nonneg_iff)
  have x1: "?t div int W < int H" using t1 W by (intro int_div_less) auto
  have y0: "0 \<le> ?t mod int W" using W by simp
  have y1: "?t mod int W < int W" using W by simp
  have "(?t div int W) * int W + ?t mod int W = ?t" by (rule div_mult_mod_eq)
  moreover have "?c * int (H * W) + ?t = a" by (rule div_mult_mod_eq)
  ultimately have enc: "?c * int (H * W) + (?t div int W) * int W + ?t mod int W = a"
    by (simp only: add.assoc)
  have dec: "decode_action (C, H, W) a = Inr (?c, ?t div int W, ?t mod int W)"
    using assms W by (simp add: decode_action_def Let_def)
  show ?thesis
    unfolding dec using x0 x1 y0 y1 enc by (simp del: of_nat_mult)
qed

lemma offset_of_coords:
  assumes "0 \<le> c" "0 \<le> x" "0 \<le> y"
  shows "int (offset (C, H, W) (nat c) (nat x) (nat y)) = c * int (H * W) + x * int W + y"
  using assms by (simp add: offset_def algebra_simps)

lemma set_pixel_wrapped:
  assumes "dims t = (C, H, W)" "in_dim C c" "in_dim H x" "in_dim W y"
  shows "set_pixel t c x y =
           Inr (zero_at t (offset (C, H, W) (wrap_index C c) (wrap_index H x) (wrap_index W y)))"
  using assms by (simp add: set_pixel_def zero_at_def)

lemma wrap_index_nonneg: "0 \<le> i \<Longrightarrow> wrap_index n i = nat i"
  by (simp add: wrap_index_def)

lemma wrap_index_neg: "i < 0 \<Longrightarrow> wrap_index n i = nat (i + int n)"
  by (simp add: wrap_index_def)

text \<open>Decoding a valid action and writing the pixel zeroes the entry at offset \<open>a\<close>.\<close>

lemma perturb_valid:
  assumes "dims t = (C, H, W)" "0 \<le> a" "a < int (C * H * W)"
  obtains c x y where "decode_action (C, H, W) a = Inr (c, x, y)"
    and "set_pixel t c x y = Inr (zero_at t (nat a))"
    and "0 \<le> c" "c < int C" "0 \<le> x" "x < int H" "0 \<le> y" "y < int W"
    and "offset (C, H, W) (nat c) (nat x) (nat y) = nat a"
proof -
  from assms have pos: "0 < H * W" by (cases "H * W = 0") auto
  from decode_action_coords[OF pos, of C a] obtain c x y where
    d: "decode_action (C, H, W) a = Inr (c, x, y)" and c: "c = a div int (H * W)"
    and x: "0 \<le> x" "x < int H" and y: "0 \<le> y" "y < int W"
    and e: "c * int (H * W) + x * int W + y = a" by blast
  have c0: "0 \<le> c" using assms(2) pos c by (simp add: pos_imp_zdiv_nonneg_iff)
  have "a < int C * int (H * W)" using assms(3) by (simp add: mult.assoc)
  then have c1: "c < int C" unfolding c using pos by (intro int_div_less) auto
  have "int (offset (C, H, W) (nat c) (nat x) (nat y)) = a"
    using offset_of_coords[OF c0 x(1) y(1), of C H W] e by simp
  then have off: "offset (C, H, W) (nat c) (nat x) (nat y) = nat a" by linarith
  have sp: "set_pixel t c x y = Inr (zero_at t (nat a))"
    using set_pixel_wrapped[OF assms(1), of c x y] c0 c1 x y off
    by (simp add: in_dim_def wrap_index_nonneg)
  show thesis by (rule that[OF d sp c0 c1 x y off])
qed

lemma class_prob_valid:
  "target < length (mdl img) \<Longrightarrow> class_prob mdl img target = Inr (softmax (mdl img) ! target)"
  by (simp add: class_prob_def softmax_def)

lemma map2_diff_self: "filter (\<lambda>d. d \<noteq> 0) (map2 (-) xs xs) = ([] :: real list)"
  by (induction xs) auto

lemma nonzero_after_update:
  "length (filter (\<lambda>d. d \<noteq> 0) (map2 (-) (xs[k := 0]) xs)) =
     (if k < length xs \<and> xs ! k \<noteq> (0::real) then 1 else 0)"
proof (induction xs arbitrary: k)
  case Nil
  then show ?case by simp
next
  case (Cons x xs)
  then show ?case by (cases k) (auto simp: map2_diff_self)
qed

lemma sparsity_zero_at:
  "sparsity t (zero_at t k) = Inr (if k < length (elems t) \<and> elems t ! k \<noteq> 0 then 1 else 0)"
proof -
  have "sparsity t (zero_at t k) =
          Inr (length (filter (\<lambda>d. d \<noteq> 0) (map2 (-) ((elems t)[k := 0]) (elems t))))"
    by (simp add: sparsity_def zero_at_def)
  then show ?thesis by (simp only: nonzero_after_update)
qed


subsection \<open>One call of \<open>step\<close>\<close>

lemma compute_reward_valid:
  assumes "target_class env < length (model env original)"
    and "target_class env < length (model env perturbed)"
    and "sparsity original perturbed = Inr n"
  shows "compute_reward env original perturbed =
           Inr (canonical_reward (model env) (lambda_coef env) (target_class env) original perturbed n)"
  using assms by (simp add: compute_reward_def class_prob_valid canonical_reward_def)

lemma compute_reward_zero_at:
  assumes "target_class env < length (model env t)"
    and "target_class env < length (model env (zero_at t k))"
  shows "compute_reward env t (zero_at t k) =
           Inr (canonical_reward (model env) (lambda_coef env) (target_class env) t (zero_at t k)
                  (changed t k))"
  using compute_reward_valid[OF assms, of "changed t k"]
  by (simp add: sparsity_zero_at changed_def)

lemma step_pixel_nonterminal:
  assumes d: "decode_action (image_shape env) a = Inr (c, x, y)"
    and p: "set_pixel (image_cur env) c x y = Inr (zero_at (image_cur env) k)"
    and cls: "target_class env < length (model env (image_cur env))"
             "target_class env < length (model env (zero_at (image_cur env) k))"
    and nt: "current_attack_count env + 1 < attack_budget env"
  shows "step nxt a env =
           (Inr (zero_at (image_cur env) k,
                 canonical_reward (model env) (lambda_coef env) (target_class env)
                   (image_cur env) (zero_at (image_cur env) k) (changed (image_cur env) k),
                 False),
            env\<lparr>current_attack_count := current_attack_count env + 1,
                image_cur := zero_at (image_cur env) k\<rparr>)"
proof -
  let ?env1 = "env\<lparr>current_attack_count := current_attack_count env + 1\<rparr>"
  have r: "compute_reward ?env1 (image_cur env) (zero_at (image_cur env) k) =
             Inr (canonical_reward (model env) (lambda_coef env) (target_class env)
                   (image_cur env) (zero_at (image_cur env) k) (changed (image_cur env) k))"
    using compute_reward_zero_at[of ?env1 "image_cur env" k] cls by simp
  show ?thesis using nt by (simp add: step_def d p r)
qed

lemma step_pixel_terminal:
  assumes d: "decode_action (image_shape env) a = Inr (c, x, y)"
    and p: "set_pixel (image_cur env) c x y = Inr (zero_at (image_cur env) k)"
    and cls: "target_class env < length (model env (image_cur env))"
             "target_class env < length (model env (zero_at (image_cur env) k))"
    and t: "attack_budget env \<le> current_attack_count env + 1"
    and draw: "nxt (dataloader env) = Inr ((img, label), d')"
  shows "step nxt a env =
           (Inr (zero_at (image_cur env) k,
                 canonical_reward (model env) (lambda_coef env) (target_class env)
                   (image_cur env) (zero_at (image_cur env) k) (changed (image_cur env) k),
                 True),
            env\<lparr>dataloader := d', target_class := label, original_image := img,
                current_attack_count := 0,
                image_cur := zero_at (image_cur env) k\<rparr>)"
proof -
  let ?env1 = "env\<lparr>current_attack_count := current_attack_count env + 1\<rparr>"
  have r: "compute_reward ?env1 (image_cur env) (zero_at (image_cur env) k) =
             Inr (canonical_reward (model env) (lambda_coef env) (target_class env)
                   (image_cur env) (zero_at (image_cur env) k) (changed (image_cur env) k))"
    using compute_reward_zero_at[of ?env1 "image_cur env" k] cls by simp
  show ?thesis using t draw by (simp add: step_def d p r reset_def)
qed

lemma step_nonterminal:
  assumes shp: "image_shape env = (C, H, W)" "dims (image_cur env) = (C, H, W)"
    and act: "0 \<le> a" "a < int (C * H * W)"
    and cls: "target_class env < length (model env (image_cur env))"
             "target_class env < length (model env (zero_at (image_cur env) (nat a)))"
    and nt: "current_attack_count env + 1 < attack_budget env"
  shows "step nxt a env =
           (Inr (zero_at (image_cur env) (nat a),
                 canonical_reward (model env) (lambda_coef env) (target_class env)
                   (image_cur env) (zero_at (image_cur env) (nat a)) (changed (image_cur env) (nat a)),
                 False),
            env\<lparr>current_attack_count := current_attack_count env + 1,
                image_cur := zero_at (image_cur env) (nat a)\<rparr>)"
proof -
  obtain c x y where d: "decode_action (C, H, W) a = Inr (c, x, y)"
    and p: "set_pixel (image_cur env) c x y = Inr (zero_at (image_cur env) (nat a))"
    using perturb_valid[OF shp(2) act] by blast
  from d have d': "decode_action (image_shape env) a = Inr (c, x, y)" by (simp add: shp(1))
  show ?thesis by (rule step_pixel_nonterminal[OF d' p cls nt])
qed

lemma step_terminal:
  assumes shp: "image_shape env = (C, H, W)" "dims (image_cur env) = (C, H, W)"
    and act: "0 \<le> a" "a < int (C * H * W)"
    and cls: "target_class env < length (model env (image_cur env))"
             "target_class env < length (model env (zero_at (image_cur env) (nat a)))"
    and t: "attack_budget env \<le> current_attack_count env + 1"
    and draw: "nxt (dataloader env) = Inr ((img, label), d')"
  shows "step nxt a env =
           (Inr (zero_at (image_cur env) (nat a),
                 canonical_reward (model env) (lambda_coef env) (target_class env)
                   (image_cur env) (zero_at (image_cur env) (nat a)) (changed (image_cur env) (nat a)),
                 True),
            env\<lparr>dataloader := d', target_class := label, original_image := img,
                current_attack_count := 0,
                image_cur := zero_at (image_cur env) (nat a)\<rparr>)"
proof -
  obtain c x y where d: "decode_action (C, H, W) a = Inr (c, x, y)"
    and p: "set_pixel (image_cur env) c x y = Inr (zero_at (image_cur env) (nat a))"
    using perturb_valid[OF shp(2) act] by blast
  from d have d': "decode_action (image_shape env) a = Inr (c, x, y)" by (simp add: shp(1))
  show ?thesis by (rule step_pixel_terminal[where nxt=nxt, OF d' p cls t draw])
qed

subsection \<open>The calls up to the end of an episode\<close>

lemma steps_to_episode_end:
  assumes shp: "image_shape env = (C, H, W)" "dims (image_cur env) = (C, H, W)"
    and cls: "\<And>t. target_class env < length (model env t)"
    and acts: "\<forall>a\<in>set acts. 0 \<le> a \<and> a < int (C * H * W)"
    and cnt: "current_attack_count env + int (length acts) = attack_budget env"
    and ne: "acts \<noteq> []"
    and draw: "nxt (dataloader env) = Inr (smp, d')"
  shows "\<exists>rs env'. steps nxt acts env = (Inr rs, env') \<and>
           map (\<lambda>r. snd (snd r)) rs = replicate (length acts - 1) False @ [True] \<and>
           current_attack_count env' = 0"
  using shp cls acts cnt ne draw
proof (induction acts arbitrary: env)
  case Nil
  then show ?case by simp
next
  case (Cons a as)
  have a: "0 \<le> a" "a < int (C * H * W)" using Cons.prems(4) by simp_all
  have c1: "target_class env < length (model env (image_cur env))"
    and c2: "target_class env < length (model env (zero_at (image_cur env) (nat a)))"
    using Cons.prems(3) by simp_all
  obtain img label where smp: "smp = (img, label)" by (cases smp) auto
  show ?case
  proof (cases "as = []")
    case True
    then have t: "attack_budget env \<le> current_attack_count env + 1" using Cons.prems(5) by simp
    show ?thesis
      using step_terminal[OF Cons.prems(1,2) a c1 c2 t, of nxt img label d'] Cons.prems(7) True smp
      by simp
  next
    case False
    then have nt: "current_attack_count env + 1 < attack_budget env"
      using Cons.prems(5) by (cases as) simp_all
    let ?env' = "env\<lparr>current_attack_count := current_attack_count env + 1,
                      image_cur := zero_at (image_cur env) (nat a)\<rparr>"
    have st: "step nxt a env =
           (Inr (zero_at (image_cur env) (nat a),
                 canonical_reward (model env) (lambda_coef env) (target_class env)
                   (image_cur env) (zero_at (image_cur env) (nat a)) (changed (image_cur env) (nat a)),
                 False), ?env')"
      by (rule step_nonterminal[OF Cons.prems(1,2) a c1 c2 nt])
    have "\<exists>rs env''. steps nxt as ?env' = (Inr rs, env'') \<and>
           map (\<lambda>r. snd (snd r)) rs = replicate (length as - 1) False @ [True] \<and>
           current_attack_count env'' = 0"
    proof (rule Cons.IH)
      show "image_shape ?env' = (C, H, W)" using Cons.prems(1) by simp
      show "dims (image_cur ?env') = (C, H, W)" using Cons.prems(2) by (simp add: zero_at_def)
      show "\<And>t. target_class ?env' < length (model ?env' t)" using Cons.prems(3) by simp
      show "\<forall>a\<in>set as. 0 \<le> a \<and> a < int (C * H * W)" using Cons.prems(4) by simp
      show "current_attack_count ?env' + int (length as) = attack_budget ?env'"
        using Cons.prems(5) by simp
      show "as \<noteq> []" by (rule False)
      show "nxt (dataloader ?env') = Inr (smp, d')" using Cons.prems(7) by simp
    qed
    then obtain rs env'' where r: "steps nxt as ?env' = (Inr rs, env'')"
      and m: "map (\<lambda>r. snd (snd r)) rs = replicate (length as - 1) False @ [True]"
      and z: "current_attack_count env'' = 0" by blast
    have "length as - 1 + 1 = length as" using False by (cases as) simp_all
    then have "False # replicate (length as - 1) False = replicate (length as) False"
      by (metis replicate_Suc Suc_eq_plus1)
    then show ?thesis using st r m z by simp
  qed
qed

subsection \<open>Sparsity and pixel positions\<close>

lemma concat_rows_upt:
  "concat (map (\<lambda>i. map (\<lambda>j. i * n + j) [0..<n]) [0..<m]) = [0..<m * n]"
proof (induction m)
  case 0
  then show ?case by simp
next
  case (Suc m)
  have last_row: "map (\<lambda>j. m * n + j) [0..<n] = [m * n..<m * n + n]"
    using map_add_upt[of "m * n" n] by (simp add: add.commute)
  have "concat (map (\<lambda>i. map (\<lambda>j. i * n + j) [0..<n]) [0..<Suc m]) =
          [0..<m * n] @ [m * n..<m * n + n]"
    using Suc last_row by simp
  also have "\<dots> = [0..<m * n + n]"
    using upt_add_eq_append[of 0 "m * n" n] by simp
  finally show ?case by (simp add: add.commute)
qed

lemma concat_rows_upt_shift:
  "concat (map (\<lambda>i. map (\<lambda>j. b + (i * n + j)) [0..<n]) [0..<m]) = map (\<lambda>k. b + k) [0..<m * n]"
proof -
  have "map (\<lambda>k. b + k) (concat (map (\<lambda>i. map (\<lambda>j. i * n + j) [0..<n]) [0..<m])) =
          concat (map (\<lambda>i. map (\<lambda>j. b + (i * n + j)) [0..<n]) [0..<m])"
    by (simp add: map_concat comp_def)
  then show ?thesis by (simp only: concat_rows_upt)
qed

lemma offsets_of_positions:
  "map (\<lambda>(c, x, y). offset (C, H, W) c x y) (positions (C, H, W)) = [0..<C * H * W]"
proof -
  have eq: "(c * H + x) * W + y = c * (H * W) + (x * W + y)" for c x y
    by (simp add: algebra_simps)
  have inner: "concat (map (\<lambda>x. map (\<lambda>y. (c * H + x) * W + y) [0..<W]) [0..<H]) =
                 map (\<lambda>k. c * (H * W) + k) [0..<H * W]" for c
    unfolding eq by (rule concat_rows_upt_shift)
  have "map (\<lambda>(c, x, y). offset (C, H, W) c x y) (positions (C, H, W)) =
          concat (map (\<lambda>c. concat (map (\<lambda>x. map (\<lambda>y. (c * H + x) * W + y) [0..<W]) [0..<H])) [0..<C])"
    by (simp add: positions_def offset_def map_concat comp_def)
  also have "\<dots> = concat (map (\<lambda>c. map (\<lambda>k. c * (H * W) + k) [0..<H * W]) [0..<C])"
    by (simp only: inner)
  also have "\<dots> = [0..<C * (H * W)]" by (rule concat_rows_upt)
  finally show ?thesis by (simp add: mult.assoc)
qed

lemma nonzero_diff_count:
  assumes "length ps = length os"
  shows "length (filter (\<lambda>d. d \<noteq> (0::real)) (map2 (-) ps os)) =
           length (filter (\<lambda>k. os ! k \<noteq> ps ! k) [0..<length os])"
proof -
  have "map2 (-) ps os = map (\<lambda>k. ps ! k - os ! k) [0..<length os]"
    using assms by (intro nth_equalityI) simp_all
  then have "length (filter (\<lambda>d. d \<noteq> 0) (map2 (-) ps os)) =
               length (filter (\<lambda>d. d \<noteq> 0) (map (\<lambda>k. ps ! k - os ! k) [0..<length os]))"
    by (simp only:)
  also have "\<dots> = length (filter ((\<lambda>d. d \<noteq> 0) \<circ> (\<lambda>k. ps ! k - os ! k)) [0..<length os])"
    by (simp only: length_filter_map)
  also have "(\<lambda>d. d \<noteq> 0) \<circ> (\<lambda>k. ps ! k - os ! k) = (\<lambda>k. os ! k \<noteq> ps ! k)"
    by (auto simp: fun_eq_iff)
  finally show ?thesis .
qed

text \<open>The code's sparsity is the number of pixel positions at which the two images differ.\<close>

lemma sparsity_counts_positions:
  assumes "dims perturbed = dims original" "wf_tensor original" "wf_tensor perturbed"
  shows "sparsity original perturbed = Inr (length (diff_positions original perturbed))"
proof -
  obtain C H W where shp: "dims original = (C, H, W)" by (cases "dims original") auto
  have len: "length (elems original) = C * H * W" "length (elems perturbed) = C * H * W"
    using assms shp by (simp_all add: wf_tensor_def numel_def)
  have "length (diff_positions original perturbed) =
          length (filter ((\<lambda>k. elems original ! k \<noteq> elems perturbed ! k) \<circ> (\<lambda>(c, x, y). offset (C, H, W) c x y))
                   (positions (C, H, W)))"
    using assms(1) shp
    by (simp add: diff_positions_def pixel_def comp_def case_prod_unfold)
  also have "\<dots> = length (filter (\<lambda>k. elems original ! k \<noteq> elems perturbed ! k)
                         (map (\<lambda>(c, x, y). offset (C, H, W) c x y) (positions (C, H, W))))"
    by (simp only: length_filter_map)
  also have "\<dots> = length (filter (\<lambda>k. elems original ! k \<noteq> elems perturbed ! k) [0..<C * H * W])"
    by (simp only: offsets_of_positions)
  also have "\<dots> = length (filter (\<lambda>d. d \<noteq> 0) (map2 (-) (elems perturbed) (elems original)))"
    using nonzero_diff_count[of "elems perturbed" "elems original"] len by simp
  finally have "length (filter (\<lambda>d. d \<noteq> 0) (map2 (-) (elems perturbed) (elems original))) =
      length (diff_positions original perturbed)" by simp
  moreover have "sparsity original perturbed =
      Inr (length (filter (\<lambda>d. d \<noteq> 0) (map2 (-) (elems perturbed) (elems original))))"
    using assms(1) len by (simp add: sparsity_def)
  ultimately show ?thesis by (simp only:)
qed

subsection \<open>Softmax probabilities\<close>

lemma elem_le_sum_list_nonneg:
  fixes xs :: "real list"
  assumes "\<forall>y\<in>set xs. 0 \<le> y" "x \<in> set xs"
  shows "x \<le> sum_list xs"
  using assms
proof (induction xs)
  case Nil
  then show ?case by simp
next
  case (Cons z zs)
  have "0 \<le> sum_list zs" using Cons.prems(1) by (intro sum_list_nonneg) simp
  then show ?case using Cons by auto
qed

lemma softmax_nth_bounds:
  assumes "i < length zs"
  shows "0 < softmax zs ! i" and "softmax zs ! i \<le> 1"
proof -
  have m: "exp (zs ! i) \<in> set (map exp zs)" using assms by simp
  have "exp (zs ! i) \<le> sum_list (map exp zs)"
    by (rule elem_le_sum_list_nonneg[OF _ m]) auto
  moreover have "0 < exp (zs ! i)" by simp
  ultimately have s: "0 < sum_list (map exp zs)" "exp (zs ! i) \<le> sum_list (map exp zs)"
    by linarith+
  have e: "softmax zs ! i = exp (zs ! i) / sum_list (map exp zs)"
    using assms by (simp add: softmax_def)
  show "0 < softmax zs ! i" unfolding e using s by simp
  show "softmax zs ! i \<le> 1" unfolding e using s by simp
qed

subsection \<open>A valid step, and the positions it changes\<close>

lemma wf_zero_at: "wf_tensor t \<Longrightarrow> wf_tensor (zero_at t k)"
  by (simp add: wf_tensor_def zero_at_def)

lemma dims_zero_at: "dims (zero_at t k) = dims t"
  by (simp add: zero_at_def)

lemma changed_counts_positions:
  assumes "wf_tensor t"
  shows "changed t k = length (diff_positions t (zero_at t k))"
proof -
  have "sparsity t (zero_at t k) = Inr (length (diff_positions t (zero_at t k)))"
    by (rule sparsity_counts_positions[OF dims_zero_at assms wf_zero_at[OF assms]])
  then show ?thesis by (simp add: sparsity_zero_at changed_def)
qed

text \<open>A step on a valid action returns, whether or not it ends the episode.\<close>

lemma step_valid:
  assumes shp: "image_shape env = (C, H, W)" "dims (image_cur env) = (C, H, W)"
    and act: "0 \<le> a" "a < int (C * H * W)"
    and cls: "\<And>t. target_class env < length (model env t)"
    and draw: "current_attack_count env + 1 < attack_budget env \<or>
               (\<exists>s d. nxt (dataloader env) = Inr (s, d))"
  shows "\<exists>done env'. step nxt a env =
           (Inr (zero_at (image_cur env) (nat a),
                 canonical_reward (model env) (lambda_coef env) (target_class env)
                   (image_cur env) (zero_at (image_cur env) (nat a)) (changed (image_cur env) (nat a)),
                 done), env') \<and> image_cur env' = zero_at (image_cur env) (nat a)"
proof (cases "current_attack_count env + 1 < attack_budget env")
  case True
  show ?thesis
    using step_nonterminal[where nxt=nxt, OF shp act cls cls True] by auto
next
  case False
  then obtain s d2 where "nxt (dataloader env) = Inr (s, d2)" using draw by blast
  then obtain img label where dr: "nxt (dataloader env) = Inr ((img, label), d2)"
    by (cases s) auto
  from False have t: "attack_budget env \<le> current_attack_count env + 1" by simp
  show ?thesis
    using step_terminal[where nxt=nxt, OF shp act cls cls t dr] by auto
qed

lemma set_positions:
  "set (positions (C, H, W)) = {(c, x, y). c < C \<and> x < H \<and> y < W}"
  by (fastforce simp: positions_def)

lemma distinct_positions: "distinct (positions (C, H, W))"
proof -
  have "distinct (map (\<lambda>(c, x, y). offset (C, H, W) c x y) (positions (C, H, W)))"
    by (simp only: offsets_of_positions distinct_upt)
  then show ?thesis by (simp add: distinct_map)
qed

lemma offset_inj:
  assumes "c < C" "x < H" "y < W" "c' < C" "x' < H" "y' < W"
    and "offset (C, H, W) c x y = offset (C, H, W) c' x' y'"
  shows "(c, x, y) = (c', x', y')"
proof -
  have "distinct (map (\<lambda>(c, x, y). offset (C, H, W) c x y) (positions (C, H, W)))"
    by (simp only: offsets_of_positions distinct_upt)
  then have "inj_on (\<lambda>(c, x, y). offset (C, H, W) c x y) (set (positions (C, H, W)))"
    by (simp add: distinct_map)
  moreover have "(c, x, y) \<in> set (positions (C, H, W))" "(c', x', y') \<in> set (positions (C, H, W))"
    using assms by (simp_all add: set_positions)
  ultimately show ?thesis
    using assms(7) inj_onD[of "\<lambda>(c, x, y). offset (C, H, W) c x y" "set (positions (C, H, W))"
                            "(c, x, y)" "(c', x', y')"]
    by simp
qed

lemma filter_single:
  assumes "distinct xs" "p \<in> set xs" "\<And>q. q \<in> set xs \<Longrightarrow> P q \<longleftrightarrow> q = p"
  shows "filter P xs = [p]"
  using assms
proof (induction xs)
  case Nil
  then show ?case by simp
next
  case (Cons z zs)
  show ?case
  proof (cases "z = p")
    case True
    then have "p \<notin> set zs" using Cons.prems(1) by simp
    then have "filter P zs = []" using Cons.prems(3) by (auto simp: filter_empty_conv)
    then show ?thesis using True Cons.prems(3) by simp
  next
    case False
    then have "p \<in> set zs" using Cons.prems(2) by simp
    moreover have "distinct zs" using Cons.prems(1) by simp
    ultimately have "filter P zs = [p]" using Cons.IH Cons.prems(3) by simp
    then show ?thesis using False Cons.prems(3)[of z] by simp
  qed
qed

lemma step_done_state:
  assumes "step nxt a env = (Inr (obs, r, True), env')"
  shows "image_cur env' = obs \<and>
         (\<exists>img label d'. nxt (dataloader env) = Inr ((img, label), d') \<and>
            target_class env' = label \<and> original_image env' = img \<and>
            current_attack_count env' = 0)"
proof -
  let ?env1 = "env\<lparr>current_attack_count := current_attack_count env + 1\<rparr>"
  obtain c x y where d: "decode_action (image_shape env) a = Inr (c, x, y)"
    using assms by (cases "decode_action (image_shape env) a") (auto simp: step_def)
  obtain p where p: "set_pixel (image_cur env) c x y = Inr p"
    using assms d by (cases "set_pixel (image_cur env) c x y") (auto simp: step_def)
  obtain rw where rw: "compute_reward ?env1 (image_cur env) p = Inr rw"
    using assms d p by (cases "compute_reward ?env1 (image_cur env) p") (auto simp: step_def)
  have dn: "attack_budget env \<le> current_attack_count env + 1"
    using assms d p rw by (cases "attack_budget env \<le> current_attack_count env + 1") (auto simp: step_def)
  obtain img label d' where n: "nxt (dataloader env) = Inr ((img, label), d')"
    using assms d p rw dn
    by (cases "nxt (dataloader env)") (auto simp: step_def reset_def)
  show ?thesis using assms d p rw dn n by (auto simp: step_def reset_def)
qed

subsection \<open>The endless loader\<close>

lemma next_endless_nonempty:
  assumes "source e \<noteq> []"
  shows "\<exists>b e'. next_endless e = Inr (b, e') \<and> source e' = source e"
  using assms by (auto simp: next_endless_def split: list.splits)

lemma draws_endless_cycle:
  assumes "source e \<noteq> []" "cursor e = drop i (source e)" "i \<le> length (source e)"
  shows "\<exists>e'. draws next_endless n e =
                  Inr (map (\<lambda>k. source e ! ((i + k) mod length (source e))) [0..<n], e') \<and>
               source e' = source e"
  using assms
proof (induction n arbitrary: e i)
  case 0
  then show ?case by simp
next
  case (Suc n)
  let ?src = "source e" and ?len = "length (source e)"
  have pos: "0 < ?len" using Suc.prems(1) by simp
  have shift: "map (\<lambda>k. ?src ! ((i + k) mod ?len)) [0..<Suc n] =
                 ?src ! (i mod ?len) # map (\<lambda>k. ?src ! ((Suc i + k) mod ?len)) [0..<n]"
    by (simp add: map_upt_Suc del: upt_Suc)
  show ?case
  proof (cases "i < ?len")
    case True
    then have cur: "cursor e = ?src ! i # drop (Suc i) ?src"
      using Suc.prems(2) by (simp add: Cons_nth_drop_Suc)
    let ?e1 = "e\<lparr>cursor := drop (Suc i) ?src\<rparr>"
    have nx: "next_endless e = Inr (?src ! i, ?e1)" using cur by (simp add: next_endless_def)
    have "\<exists>e'. draws next_endless n ?e1 =
                  Inr (map (\<lambda>k. source ?e1 ! ((Suc i + k) mod length (source ?e1))) [0..<n], e') \<and>
               source e' = source ?e1"
      by (rule Suc.IH) (use Suc.prems True in simp_all)
    then obtain e' where d: "draws next_endless n ?e1 =
        Inr (map (\<lambda>k. ?src ! ((Suc i + k) mod ?len)) [0..<n], e')" and s: "source e' = ?src"
      by auto
    have "draws next_endless (Suc n) e =
            Inr (?src ! i # map (\<lambda>k. ?src ! ((Suc i + k) mod ?len)) [0..<n], e')"
      using nx d by simp
    then show ?thesis using s True by (simp only: shift mod_less) blast
  next
    case False
    then have i: "i = ?len" using Suc.prems(3) by simp
    then have cur: "cursor e = []" using Suc.prems(2) by simp
    obtain b bs where src: "?src = b # bs" using Suc.prems(1) by (cases ?src) auto
    let ?e1 = "e\<lparr>cursor := bs\<rparr>"
    have nx: "next_endless e = Inr (b, ?e1)" using cur src by (simp add: next_endless_def)
    have "\<exists>e'. draws next_endless n ?e1 =
                  Inr (map (\<lambda>k. source ?e1 ! ((1 + k) mod length (source ?e1))) [0..<n], e') \<and>
               source e' = source ?e1"
      by (rule Suc.IH) (use Suc.prems src in simp_all)
    then obtain e' where d: "draws next_endless n ?e1 =
        Inr (map (\<lambda>k. ?src ! ((1 + k) mod ?len)) [0..<n], e')" and s: "source e' = ?src"
      by auto
    have b0: "?src ! (i mod ?len) = b" using i src by simp
    have "(Suc i + k) mod ?len = (1 + k) mod ?len" for k
    proof -
      have "Suc i + k = ?len + (1 + k)" using i by simp
      then show ?thesis by (simp only: mod_add_self1)
    qed
    then have tl: "map (\<lambda>k. ?src ! ((Suc i + k) mod ?len)) [0..<n] =
                     map (\<lambda>k. ?src ! ((1 + k) mod ?len)) [0..<n]" by simp
    have "draws next_endless (Suc n) e =
            Inr (b # map (\<lambda>k. ?src ! ((1 + k) mod ?len)) [0..<n], e')"
      using nx d by simp
    then show ?thesis using s unfolding shift b0 tl by blast
  qed
qed

subsection \<open>The range of doubles\<close>

lemma max_double_ge_one: "1 \<le> max_double"
proof -
  have "(1::real) \<le> 2 - 1 / 2 ^ 52" by simp
  moreover have "(1::real) \<le> 2 ^ 1023" by (rule one_le_power) simp
  ultimately have "(1::real) * 1 \<le> (2 - 1 / 2 ^ 52) * 2 ^ 1023"
    by (intro mult_mono) simp_all
  then show ?thesis by (simp add: max_double_def)
qed


lemma to_double_unit: "\<bar>r\<bar> \<le> 1 \<Longrightarrow> to_double r = Finite r"
proof -
  assume "\<bar>r\<bar> \<le> 1"
  then have "\<not> max_double < r" "\<not> r < - max_double" using max_double_ge_one by linarith+
  then show ?thesis by (simp add: to_double_def)
qed

lemma np_exp_nonpos: "x \<le> 0 \<Longrightarrow> np_exp x = Finite (exp x)"
  unfolding np_exp_def by (rule to_double_unit) simp

lemma fmul_unit: "\<bar>a\<bar> \<le> 1 \<Longrightarrow> \<bar>v\<bar> \<le> 1 \<Longrightarrow> fmul a (Finite v) = Finite (a * v)"
proof -
  assume a: "\<bar>a\<bar> \<le> 1" and v: "\<bar>v\<bar> \<le> 1"
  have "\<bar>a * v\<bar> = \<bar>a\<bar> * \<bar>v\<bar>" by (rule abs_mult)
  also have "\<dots> \<le> 1 * 1" using a v by (intro mult_mono) simp_all
  finally have "\<bar>a * v\<bar> \<le> 1" by simp
  then show ?thesis by (simp add: fmul_def to_double_unit)
qed


lemma fmul_zero_exp_nonpos: "x \<le> 0 \<Longrightarrow> fmul 0 (np_exp x) = Finite 0"
proof -
  assume "x \<le> 0"
  then have "np_exp x = Finite (exp x)" by (rule np_exp_nonpos)
  moreover have "fmul 0 (Finite (exp x)) = Finite (0 * exp x)"
    using \<open>x \<le> 0\<close> by (intro fmul_unit) simp_all
  ultimately show ?thesis by simp
qed

lemma canonical_reward_nonneg:
  assumes "target < length (mdl before)" "target < length (mdl after)" "0 \<le> lam"
  shows "canonical_reward mdl lam target before after n =
           Finite ((softmax (mdl before) ! target - softmax (mdl after) ! target) *
                   exp (- lam * real n))"
    and "\<bar>(softmax (mdl before) ! target - softmax (mdl after) ! target) *
           exp (- lam * real n)\<bar> \<le> 1"
proof -
  let ?p = "softmax (mdl before) ! target" and ?q = "softmax (mdl after) ! target"
  have "0 < ?p" "?p \<le> 1" "0 < ?q" "?q \<le> 1"
    using assms softmax_nth_bounds[of target] by simp_all
  then have d: "\<bar>?p - ?q\<bar> \<le> 1" by linarith
  have "- lam * real n \<le> 0" using assms(3) by simp
  then have e: "np_exp (- lam * real n) = Finite (exp (- lam * real n))"
    and e1: "\<bar>exp (- lam * real n)\<bar> \<le> 1"
    by (simp_all add: np_exp_nonpos)
  show "canonical_reward mdl lam target before after n = Finite ((?p - ?q) * exp (- lam * real n))"
    unfolding canonical_reward_def e by (rule fmul_unit[OF d e1])
  have "\<bar>(?p - ?q) * exp (- lam * real n)\<bar> = \<bar>?p - ?q\<bar> * \<bar>exp (- lam * real n)\<bar>"
    by (rule abs_mult)
  also have "\<dots> \<le> 1 * 1" using d e1 by (intro mult_mono) simp_all
  finally show "\<bar>(?p - ?q) * exp (- lam * real n)\<bar> \<le> 1" by simp
qed


subsection \<open>A valid step with its flag\<close>

lemma step_valid_flag:
  assumes shp: "image_shape env = (C, H, W)" "dims (image_cur env) = (C, H, W)"
    and act: "0 \<le> a" "a < int (C * H * W)"
    and cls: "\<And>t. target_class env < length (model env t)"
    and draw: "current_attack_count env + 1 < attack_budget env \<or>
               (\<exists>s d. nxt (dataloader env) = Inr (s, d))"
  shows "\<exists>env'. step nxt a env =
           (Inr (zero_at (image_cur env) (nat a),
                 canonical_reward (model env) (lambda_coef env) (target_class env)
                   (image_cur env) (zero_at (image_cur env) (nat a)) (changed (image_cur env) (nat a)),
                 attack_budget env \<le> current_attack_count env + 1), env') \<and>
           image_cur env' = zero_at (image_cur env) (nat a)"
proof (cases "current_attack_count env + 1 < attack_budget env")
  case True
  then have f: "(attack_budget env \<le> current_attack_count env + 1) = False" by simp
  show ?thesis
    unfolding f using step_nonterminal[where nxt=nxt, OF shp act cls cls True] by auto
next
  case False
  then obtain s d2 where "nxt (dataloader env) = Inr (s, d2)" using draw by blast
  then obtain img label where dr: "nxt (dataloader env) = Inr ((img, label), d2)"
    by (cases s) auto
  from False have t: "attack_budget env \<le> current_attack_count env + 1" by simp
  then have f: "(attack_budget env \<le> current_attack_count env + 1) = True" by simp
  show ?thesis
    unfolding f using step_terminal[where nxt=nxt, OF shp act cls cls t dr] by auto
qed

section \<open>Action decoding\<close>

text \<open>
  Claim C6. For every action \<open>a\<close> in \<open>[0, C * H * W)\<close> the decoding of lines 89 to 92
  yields a channel below \<open>C\<close>, a row below \<open>H\<close> and a column below \<open>W\<close>, and the
  formula \<open>channel * H * W + row * W + col\<close> gives \<open>a\<close> back. Conversely every
  coordinate triple inside the image is the decoding of its encoding, which is an action
  of the range: the decoding is a bijection between the actions and the coordinates.
\<close>

theorem decode_action_bijection:
  "(0 \<le> a \<and> a < int (C * H * W) \<longrightarrow>
      (\<exists>c x y. decode_action (C, H, W) a = Inr (c, x, y) \<and>
         0 \<le> c \<and> c < int C \<and> 0 \<le> x \<and> x < int H \<and> 0 \<le> y \<and> y < int W \<and>
         encode_action (C, H, W) c x y = a)) \<and>
   (c0 < C \<and> x0 < H \<and> y0 < W \<longrightarrow>
      0 \<le> encode_action (C, H, W) (int c0) (int x0) (int y0) \<and>
      encode_action (C, H, W) (int c0) (int x0) (int y0) < int (C * H * W) \<and>
      decode_action (C, H, W) (encode_action (C, H, W) (int c0) (int x0) (int y0)) =
        Inr (int c0, int x0, int y0))"
proof (intro conjI impI)
  assume a: "0 \<le> a \<and> a < int (C * H * W)"
  then have pos: "0 < H * W" by (cases "H * W = 0") auto
  from decode_action_coords[OF pos, of C a] obtain c x y where
    d: "decode_action (C, H, W) a = Inr (c, x, y)" and c: "c = a div int (H * W)"
    and x: "0 \<le> x" "x < int H" and y: "0 \<le> y" "y < int W"
    and e: "c * int (H * W) + x * int W + y = a" by blast
  have c0: "0 \<le> c" using a pos c by (simp add: pos_imp_zdiv_nonneg_iff)
  have "a < int C * int (H * W)" using a by (simp add: mult.assoc)
  then have c1: "c < int C" unfolding c using pos by (intro int_div_less) auto
  have "encode_action (C, H, W) c x y = a" using e by (simp add: encode_action_def)
  with d c0 c1 x y
  show "\<exists>c x y. decode_action (C, H, W) a = Inr (c, x, y) \<and>
         0 \<le> c \<and> c < int C \<and> 0 \<le> x \<and> x < int H \<and> 0 \<le> y \<and> y < int W \<and>
         encode_action (C, H, W) c x y = a" by blast
next
  assume b: "c0 < C \<and> x0 < H \<and> y0 < W"
  let ?r = "int x0 * int W + int y0"
  let ?e = "encode_action (C, H, W) (int c0) (int x0) (int y0)"
  have W: "0 < W" and H: "0 < H" using b by auto
  have r0: "0 \<le> ?r" by simp
  have rnat: "x0 * W + y0 < H * W"
  proof -
    have "x0 * W + y0 < x0 * W + W" using b by simp
    also have "\<dots> = (x0 + 1) * W" by simp
    also have "\<dots> \<le> H * W" using b by (intro mult_le_mono1) simp
    finally show ?thesis .
  qed
  then have r1: "?r < int (H * W)" by (metis of_nat_add of_nat_less_iff of_nat_mult)
  have e: "?e = int c0 * int (H * W) + ?r" by (simp add: encode_action_def)
  show "0 \<le> ?e" unfolding e by simp
  have "c0 * (H * W) + (x0 * W + y0) < c0 * (H * W) + H * W" using rnat by simp
  also have "\<dots> = (c0 + 1) * (H * W)" by simp
  also have "\<dots> \<le> C * (H * W)" using b by (intro mult_le_mono1) simp
  finally have "c0 * (H * W) + (x0 * W + y0) < C * H * W" by (simp add: mult.assoc)
  then have "int (c0 * (H * W) + (x0 * W + y0)) < int (C * H * W)" by (simp only: of_nat_less_iff)
  then show "?e < int (C * H * W)" unfolding e by simp
  have d: "(int c0 * int (H * W) + ?r) div int (H * W) = int c0"
    and m: "(int c0 * int (H * W) + ?r) mod int (H * W) = ?r"
    using int_divmod_offset[OF r0 r1] by simp_all
  have d2: "?r div int W = int x0" and m2: "?r mod int W = int y0"
    using int_divmod_offset[of "int y0" "int W" "int x0"] b by simp_all
  show "decode_action (C, H, W) ?e = Inr (int c0, int x0, int y0)"
    unfolding e using W H d m d2 m2
    by (simp add: decode_action_def Let_def del: of_nat_mult of_nat_add)
qed

theorem decode_action_bijection_witness:
  "(0::int) \<le> 11 \<and> (11::int) < int (2 * 2 * 3) \<and>
   decode_action (2, 2, 3) 11 = Inr (1, 1, 2) \<and> encode_action (2, 2, 3) 1 1 2 = 11 \<and>
   (1::nat) < 2 \<and> (1::nat) < 2 \<and> (2::nat) < 3 \<and>
   decode_action (2, 2, 3) (encode_action (2, 2, 3) (int 1) (int 1) (int 2)) = Inr (int 1, int 1, int 2)"
  using decode_action_bijection[of 11 2 2 3 1 1 2]
  by (simp add: decode_action_def encode_action_def)

section \<open>Frame of a step inside an episode\<close>

text \<open>
  Claim C9. A call of \<open>step\<close> whose incremented counter stays strictly below the attack
  budget changes the step counter and the held image and nothing else, whether it returns
  or raises: the snapshot of the original image, the target class, the attack budget, the
  lambda coefficient and the action and observation spaces are those of the state before.
\<close>

theorem step_frame_nonterminal:
  assumes "current_attack_count env + 1 < attack_budget env"
  shows "(\<exists>img. snd (step nxt a env) =
            env\<lparr>current_attack_count := current_attack_count env + 1, image_cur := img\<rparr>) \<and>
         original_image (snd (step nxt a env)) = original_image env \<and>
         target_class (snd (step nxt a env)) = target_class env \<and>
         attack_budget (snd (step nxt a env)) = attack_budget env \<and>
         lambda_coef (snd (step nxt a env)) = lambda_coef env \<and>
         action_space (snd (step nxt a env)) = action_space env \<and>
         observation_space (snd (step nxt a env)) = observation_space env"
proof -
  let ?env1 = "env\<lparr>current_attack_count := current_attack_count env + 1\<rparr>"
  have same: "?env1 = ?env1\<lparr>image_cur := image_cur env\<rparr>" by simp
  have "snd (step nxt a env) = ?env1 \<or>
        (\<exists>img. snd (step nxt a env) = ?env1\<lparr>image_cur := img\<rparr>)"
    using assms by (auto simp: step_def Let_def split: sum.splits prod.splits)
  then obtain img where s: "snd (step nxt a env) = ?env1\<lparr>image_cur := img\<rparr>"
    using same by metis
  show ?thesis unfolding s by auto
qed

theorem step_frame_nonterminal_witness:
  "current_attack_count (env_of ([] :: sample list) image_a 0 20) + 1 < attack_budget (env_of ([] :: sample list) image_a 0 20) \<and>
   original_image (snd (step next_plain 1 (env_of ([] :: sample list) image_a 0 20))) = image_a \<and>
   target_class (snd (step next_plain 1 (env_of ([] :: sample list) image_a 0 20))) = 0 \<and>
   attack_budget (snd (step next_plain 1 (env_of ([] :: sample list) image_a 0 20))) = 20"
  using step_frame_nonterminal[of "env_of [] image_a 0 20" next_plain 1]
  by (simp add: env_of_def)

section \<open>Actions outside the action space\<close>

text \<open>
  Claim C10, as stated: every action \<open>a \<ge> C * H * W\<close> makes \<open>step\<close> raise an
  out-of-bounds indexing error. It fails for an action so large that the decoded channel
  does not fit a signed 64-bit integer: on an image of shape \<open>[1, 1, 1, 2]\<close> the action
  \<open>2^64\<close> decodes to channel \<open>2^63\<close>, and the pixel assignment raises the overflow error
  of the index conversion, not \<open>IndexError\<close>.
\<close>

theorem step_huge_action_counterexample:
  "int (1 * 1 * 2) \<le> (2 ^ 64 :: int) \<and>
   step next_plain (2 ^ 64) (env_of ([] :: sample list) image_a 0 20) =
     (Inl IndexOverflow, (env_of ([] :: sample list) image_a 0 20)\<lparr>current_attack_count := 1\<rparr>)"
  by (simp add: step_def env_of_def decode_action_def set_pixel_def image_a_def in_dim_def
      fits_int64_def)

text \<open>
  Claim C10, amended. \<open>step\<close> does not validate its action. On an image of positive
  height and width (whose dimensions are signed 64-bit integers), every action \<open>a\<close> with
  \<open>C * H * W \<le> a < 2^63 * H * W\<close> makes the pixel assignment raise \<open>IndexError\<close>, and
  every action \<open>a \<ge> 2^63 * H * W\<close> makes it raise the overflow error of the index
  conversion; in both cases the state left behind is the state before with the step counter
  incremented. Every negative action whose decoded channel lies in \<open>[-C, 0)\<close>, that is
  \<open>-C * H * W \<le> a < 0\<close>, raises nothing at the assignment: the call returns (given a
  target class the classifier knows, and a successful draw when the call ends the episode)
  and the pixel it sets to 0 is the one at channel \<open>c + C\<close>, selected by the wraparound of
  the negative index.
\<close>

theorem step_action_not_validated:
  assumes shp: "image_shape env = (C, H, W)" "dims (image_cur env) = (C, H, W)"
    and pos: "0 < H * W"
    and i64: "int C < 2 ^ 63" "int H < 2 ^ 63" "int W < 2 ^ 63"
  shows "(int (C * H * W) \<le> a \<and> a < 2 ^ 63 * int (H * W) \<longrightarrow>
            step nxt a env =
              (Inl IndexError, env\<lparr>current_attack_count := current_attack_count env + 1\<rparr>)) \<and>
         (2 ^ 63 * int (H * W) \<le> a \<longrightarrow>
            step nxt a env =
              (Inl IndexOverflow, env\<lparr>current_attack_count := current_attack_count env + 1\<rparr>)) \<and>
         (- int (C * H * W) \<le> a \<and> a < 0 \<and>
          (\<forall>t. target_class env < length (model env t)) \<and>
          (current_attack_count env + 1 < attack_budget env \<or>
           (\<exists>s d. nxt (dataloader env) = Inr (s, d))) \<longrightarrow>
            (\<exists>c x y r done env'.
               decode_action (C, H, W) a = Inr (c, x, y) \<and>
               - int C \<le> c \<and> c < 0 \<and> 0 \<le> x \<and> x < int H \<and> 0 \<le> y \<and> y < int W \<and>
               step nxt a env =
                 (Inr (zero_at (image_cur env) (offset (C, H, W) (nat (c + int C)) (nat x) (nat y)),
                       r, done), env')))"
proof (intro conjI impI)
  from decode_action_coords[OF pos, of C a] obtain c x y where
    d: "decode_action (C, H, W) a = Inr (c, x, y)" and c: "c = a div int (H * W)"
    and x: "0 \<le> x" "x < int H" and y: "0 \<le> y" "y < int W" by blast
  have fx: "fits_int64 x" and fy: "fits_int64 y"
    using x y i64 by (simp_all add: fits_int64_def)
  {
    assume h: "int (C * H * W) \<le> a \<and> a < 2 ^ 63 * int (H * W)"
    then have "int C * int (H * W) \<le> a" by (simp add: mult.assoc)
    then have c0: "int C \<le> c" unfolding c using pos by (intro int_div_ge) auto
    have "c < 2 ^ 63" unfolding c using pos h by (intro int_div_less) auto
    then have "fits_int64 c" using c0 by (simp add: fits_int64_def)
    then have "set_pixel (image_cur env) c x y = Inl IndexError"
      using shp(2) c0 fx fy by (simp add: set_pixel_def in_dim_def)
    then show "step nxt a env =
        (Inl IndexError, env\<lparr>current_attack_count := current_attack_count env + 1\<rparr>)"
      using d shp(1) by (simp add: step_def)
  }
  {
    assume h: "2 ^ 63 * int (H * W) \<le> a"
    then have c0: "2 ^ 63 \<le> c" unfolding c using pos by (intro int_div_ge) auto
    then have "\<not> fits_int64 c" by (simp add: fits_int64_def)
    moreover have "\<not> in_dim C c" using c0 i64(1) by (simp add: in_dim_def)
    ultimately have "set_pixel (image_cur env) c x y = Inl IndexOverflow"
      using shp(2) by (simp add: set_pixel_def)
    then show "step nxt a env =
        (Inl IndexOverflow, env\<lparr>current_attack_count := current_attack_count env + 1\<rparr>)"
      using d shp(1) by (simp add: step_def)
  }
  {
    assume h: "- int (C * H * W) \<le> a \<and> a < 0 \<and>
          (\<forall>t. target_class env < length (model env t)) \<and>
          (current_attack_count env + 1 < attack_budget env \<or>
           (\<exists>s d. nxt (dataloader env) = Inr (s, d)))"
    then have "(- int C) * int (H * W) \<le> a" by (simp add: mult.assoc)
    then have c0: "- int C \<le> c" unfolding c using pos by (intro int_div_ge) auto
    have "a < 0 * int (H * W)" using h by simp
    then have c1: "c < 0" unfolding c using pos by (intro int_div_less) auto
    let ?k = "offset (C, H, W) (nat (c + int C)) (nat x) (nat y)"
    have p: "set_pixel (image_cur env) c x y = Inr (zero_at (image_cur env) ?k)"
      using set_pixel_wrapped[OF shp(2), of c x y] c0 c1 x y
      by (simp add: in_dim_def wrap_index_def)
    have d': "decode_action (image_shape env) a = Inr (c, x, y)" using d shp(1) by simp
    have cls: "target_class env < length (model env (image_cur env))"
              "target_class env < length (model env (zero_at (image_cur env) ?k))"
      using h by simp_all
    have "\<exists>r done env'. step nxt a env = (Inr (zero_at (image_cur env) ?k, r, done), env')"
    proof (cases "current_attack_count env + 1 < attack_budget env")
      case True
      show ?thesis using step_pixel_nonterminal[where nxt=nxt, OF d' p cls True] by blast
    next
      case False
      then obtain s d2 where "nxt (dataloader env) = Inr (s, d2)" using h by blast
      then obtain img label where dr: "nxt (dataloader env) = Inr ((img, label), d2)"
        by (cases s) auto
      from False have t: "attack_budget env \<le> current_attack_count env + 1" by simp
      show ?thesis using step_pixel_terminal[where nxt=nxt, OF d' p cls t dr] by blast
    qed
    with d c0 c1 x y
    show "\<exists>c x y r done env'.
               decode_action (C, H, W) a = Inr (c, x, y) \<and>
               - int C \<le> c \<and> c < 0 \<and> 0 \<le> x \<and> x < int H \<and> 0 \<le> y \<and> y < int W \<and>
               step nxt a env =
                 (Inr (zero_at (image_cur env) (offset (C, H, W) (nat (c + int C)) (nat x) (nat y)),
                       r, done), env')" by blast
  }
qed

theorem step_action_not_validated_witness:
  "image_shape (env_of ([] :: sample list) image_a 0 20) = (1, 1, 2) \<and>
   dims (image_cur (env_of ([] :: sample list) image_a 0 20)) = (1, 1, 2) \<and> (0::nat) < 1 * 2 \<and>
   int (1 * 1 * 2) \<le> (2::int) \<and> (2::int) < 2 ^ 63 * int (1 * 2) \<and>
   step next_plain 2 (env_of ([] :: sample list) image_a 0 20) =
     (Inl IndexError, (env_of ([] :: sample list) image_a 0 20)\<lparr>current_attack_count := 1\<rparr>) \<and>
   2 ^ 63 * int (1 * 2) \<le> (2 ^ 64 :: int) \<and>
   step next_plain (2 ^ 64) (env_of ([] :: sample list) image_a 0 20) =
     (Inl IndexOverflow, (env_of ([] :: sample list) image_a 0 20)\<lparr>current_attack_count := 1\<rparr>) \<and>
   - int (1 * 1 * 2) \<le> (-1::int) \<and> (-1::int) < 0 \<and>
   (\<exists>r done env'. step next_plain (-1) (env_of ([] :: sample list) image_a 0 20) =
      (Inr (zero_at image_a 1, r, done), env'))"
proof -
  let ?E = "env_of ([] :: sample list) image_a 0 20"
  have s: "image_shape ?E = (1, 1, 2)" "dims (image_cur ?E) = (1, 1, 2)"
    by (simp_all add: env_of_def image_a_def)
  have p: "(0::nat) < 1 * 2" by simp
  have i: "int 1 < 2 ^ 63" "int 1 < 2 ^ 63" "int 2 < 2 ^ 63" by simp_all
  note t = step_action_not_validated[where nxt=next_plain, OF s p i]
  have d: "decode_action (1, 1, 2) (-1) = Inr (-1, 0, 1)"
    by (simp add: decode_action_def)
  have h: "- int (1 * 1 * 2) \<le> (-1::int) \<and> (-1::int) < 0 \<and>
           (\<forall>t. target_class ?E < length (model ?E t)) \<and>
           (current_attack_count ?E + 1 < attack_budget ?E \<or>
            (\<exists>s d. next_plain (dataloader ?E) = Inr (s, d)))"
    by (simp add: env_of_def flat_model_def)
  have b1: "int (1 * 1 * 2) \<le> (2::int) \<and> (2::int) < 2 ^ 63 * int (1 * 2)" by simp
  have b2: "2 ^ 63 * int (1 * 2) \<le> (2 ^ 64 :: int)" by simp
  have small: "step next_plain 2 ?E = (Inl IndexError, ?E\<lparr>current_attack_count := 1\<rparr>)"
    using t[of 2] b1 by (simp add: env_of_def)
  have huge: "step next_plain (2 ^ 64) ?E = (Inl IndexOverflow, ?E\<lparr>current_attack_count := 1\<rparr>)"
    using t[of "2 ^ 64"] b2 by (simp add: env_of_def)
  from t[of "-1"] h
  obtain c x y r dn env' where
    "decode_action (1, 1, 2) (-1) = Inr (c, x, y)"
    "step next_plain (-1) ?E =
       (Inr (zero_at (image_cur ?E) (offset (1, 1, 2) (nat (c + int 1)) (nat x) (nat y)), r, dn), env')"
    by blast
  with d have "step next_plain (-1) ?E = (Inr (zero_at image_a 1, r, dn), env')"
    by (simp add: offset_def env_of_def)
  then have neg: "\<exists>r done env'. step next_plain (-1) ?E = (Inr (zero_at image_a 1, r, done), env')"
    by blast
  show ?thesis
    apply (rule conjI, rule s(1), rule conjI, rule s(2), rule conjI, rule p)
    apply (rule conjI, rule conjunct1[OF b1], rule conjI, rule conjunct2[OF b1])
    apply (rule conjI, rule small, rule conjI, rule b2, rule conjI, rule huge)
    apply (rule conjI, rule conjunct1[OF h], rule conjI, rule conjunct1[OF conjunct2[OF h]])
    apply (rule neg)
    done
qed

section \<open>Episode length\<close>

text \<open>
  Claim C5. In an episode with budget \<open>n \<ge> 1\<close>, that is from a state whose step counter
  is 0, \<open>n\<close> consecutive calls of \<open>step\<close> on valid actions all return; the first
  \<open>n - 1\<close> of them return \<open>done = False\<close>, the \<open>n\<close>-th returns \<open>done = True\<close>, and the
  step counter is 0 right after it. The target class is one the classifier knows, and the
  draw that the last call makes succeeds.
\<close>

theorem episode_done_flags:
  assumes "1 \<le> attack_budget env"
    and "current_attack_count env = 0"
    and "int (length acts) = attack_budget env"
    and "\<forall>a\<in>set acts. 0 \<le> a \<and> a < int (C * H * W)"
    and "image_shape env = (C, H, W)" "dims (image_cur env) = (C, H, W)"
    and "\<And>t. target_class env < length (model env t)"
    and "nxt (dataloader env) = Inr (smp, d')"
  shows "\<exists>rs env'. steps nxt acts env = (Inr rs, env') \<and>
           map (\<lambda>r. snd (snd r)) rs = replicate (nat (attack_budget env) - 1) False @ [True] \<and>
           current_attack_count env' = 0"
proof -
  have ne: "acts \<noteq> []" using assms(1,3) by auto
  have cnt: "current_attack_count env + int (length acts) = attack_budget env"
    using assms(2,3) by simp
  have len: "nat (attack_budget env) = length acts" using assms(3) by simp
  show ?thesis
    unfolding len
    by (rule steps_to_episode_end[where nxt=nxt, OF assms(5,6,7,4) cnt ne assms(8)])
qed

theorem episode_done_flags_witness:
  "1 \<le> attack_budget (env_of [(image_b, 1)] image_a 0 2) \<and>
   current_attack_count (env_of [(image_b, 1)] image_a 0 2) = 0 \<and>
   int (length [0, 1 :: int]) = attack_budget (env_of [(image_b, 1)] image_a 0 2) \<and>
   (\<exists>rs env'. steps next_plain [0, 1] (env_of [(image_b, 1)] image_a 0 2) = (Inr rs, env') \<and>
      map (\<lambda>r. snd (snd r)) rs = [False, True] \<and> current_attack_count env' = 0)"
  using episode_done_flags[of "env_of [(image_b, 1)] image_a 0 2" "[0, 1]" 1 1 2 next_plain
          "(image_b, 1)" "[]"]
  by (simp add: env_of_def image_a_def flat_model_def next_plain_def)

section \<open>The reward of a step\<close>

text \<open>
  Claim C3. A call of \<open>step\<close> on a valid action \<open>a\<close> returns the image held before the
  call with the pixel at storage offset \<open>a\<close> set to 0, and its reward is
  \<open>(p_before - p_after) * exp (- lambda * sparsity)\<close> in the arithmetic of doubles:
  \<open>p_before\<close> and \<open>p_after\<close> are the softmax probabilities of the held target class for
  the image held before the call and for the returned image, and the sparsity is the number
  of pixel positions at which these two images differ. The call leaves the returned image
  as the held image, so the image before a call is the one the previous call returned; the
  snapshot \<open>original_image\<close> does not enter the reward. The done flag says whether the
  incremented counter has reached the budget. For \<open>lambda \<ge> 0\<close> nothing overflows and the
  reward is the real number that the formula denotes.
\<close>

theorem step_reward_formula:
  fixes env :: "'d env" and nxt :: "'d next_fn" and a :: int
  defines "before \<equiv> image_cur env"
  defines "obs \<equiv> zero_at (image_cur env) (nat a)"
  defines "p_before \<equiv> softmax (model env (image_cur env)) ! target_class env"
  defines "p_after \<equiv> softmax (model env (zero_at (image_cur env) (nat a))) ! target_class env"
  defines "n \<equiv> length (diff_positions (image_cur env) (zero_at (image_cur env) (nat a)))"
  assumes "image_shape env = (C, H, W)" "dims (image_cur env) = (C, H, W)"
    and "wf_tensor (image_cur env)"
    and "0 \<le> a" "a < int (C * H * W)"
    and "\<And>t. target_class env < length (model env t)"
    and "current_attack_count env + 1 < attack_budget env \<or>
         (\<exists>s d. nxt (dataloader env) = Inr (s, d))"
  shows "\<exists>env'.
           step nxt a env =
             (Inr (obs, fmul (p_before - p_after) (np_exp (- lambda_coef env * real n)),
                   attack_budget env \<le> current_attack_count env + 1), env') \<and>
           image_cur env' = obs \<and>
           compute_reward env before obs =
             Inr (fmul (p_before - p_after) (np_exp (- lambda_coef env * real n))) \<and>
           (0 \<le> lambda_coef env \<longrightarrow>
              fmul (p_before - p_after) (np_exp (- lambda_coef env * real n)) =
                Finite ((p_before - p_after) * exp (- lambda_coef env * real n)))"
proof -
  from step_valid_flag[where nxt=nxt, OF assms(6,7,9,10,11,12)] obtain env' where
    s: "step nxt a env =
          (Inr (obs, canonical_reward (model env) (lambda_coef env) (target_class env)
                  (image_cur env) obs (changed (image_cur env) (nat a)),
                attack_budget env \<le> current_attack_count env + 1), env')"
    and i: "image_cur env' = obs" unfolding obs_def by blast
  have k: "changed (image_cur env) (nat a) = n"
    unfolding n_def by (rule changed_counts_positions[OF assms(8)])
  have c: "compute_reward env before obs =
             Inr (canonical_reward (model env) (lambda_coef env) (target_class env)
                    (image_cur env) obs (changed (image_cur env) (nat a)))"
    unfolding obs_def before_def by (rule compute_reward_zero_at[OF assms(11) assms(11)])
  have r: "canonical_reward (model env) (lambda_coef env) (target_class env) (image_cur env) obs n =
             fmul (p_before - p_after) (np_exp (- lambda_coef env * real n))"
    by (simp add: canonical_reward_def p_before_def p_after_def obs_def)
  have f: "0 \<le> lambda_coef env \<longrightarrow>
              fmul (p_before - p_after) (np_exp (- lambda_coef env * real n)) =
                Finite ((p_before - p_after) * exp (- lambda_coef env * real n))"
  proof
    assume l: "0 \<le> lambda_coef env"
    have c1: "target_class env < length (model env (image_cur env))"
      and c2: "target_class env < length (model env obs)" using assms(11) by simp_all
    from canonical_reward_nonneg(1)[OF c1 c2 l, of n]
    show "fmul (p_before - p_after) (np_exp (- lambda_coef env * real n)) =
                Finite ((p_before - p_after) * exp (- lambda_coef env * real n))"
      unfolding r by (simp add: p_before_def p_after_def obs_def)
  qed
  show ?thesis using s i c f unfolding k r by blast
qed

theorem step_reward_formula_witness:
  "image_shape ((env_of ([] :: sample list) image_a 0 20)\<lparr>model := sum_model\<rparr>) = (1, 1, 2) \<and>
   wf_tensor (image_cur ((env_of ([] :: sample list) image_a 0 20)\<lparr>model := sum_model\<rparr>)) \<and>
   (0::int) \<le> 1 \<and> (1::int) < int (1 * 1 * 2) \<and>
   (\<exists>env'.
      step next_plain 1 ((env_of ([] :: sample list) image_a 0 20)\<lparr>model := sum_model\<rparr>) =
        (Inr (zero_at image_a 1,
              Finite ((exp (3 / 4) / (exp (3 / 4) + 1) - exp (1 / 2) / (exp (1 / 2) + 1)) * exp (- 1)),
              False), env') \<and>
      image_cur env' = zero_at image_a 1)"
proof -
  let ?E = "(env_of ([] :: sample list) image_a 0 20)\<lparr>model := sum_model\<rparr>"
  have h1: "image_shape ?E = (1, 1, 2)" and h2: "dims (image_cur ?E) = (1, 1, 2)"
    and h3: "wf_tensor (image_cur ?E)"
    by (simp_all add: env_of_def image_a_def wf_tensor_def numel_def)
  have h4: "(0::int) \<le> 1" and h5: "(1::int) < int (1 * 1 * 2)" by simp_all
  have h6: "target_class ?E < length (model ?E t)" for t
    by (simp add: env_of_def sum_model_def)
  have h7: "current_attack_count ?E + 1 < attack_budget ?E \<or>
           (\<exists>s d. next_plain (dataloader ?E) = Inr (s, d))"
    by (simp add: env_of_def)
  have img: "image_cur ?E = image_a" and tc: "target_class ?E = 0" and md: "model ?E = sum_model"
    and lam: "lambda_coef ?E = 1" and bud: "attack_budget ?E = 20" and cnt: "current_attack_count ?E = 0"
    by (simp_all add: env_of_def)
  have nat1: "nat (1::int) = 1" by simp
  have p: "softmax (sum_model image_a) ! 0 = exp (3 / 4) / (exp (3 / 4) + 1)"
    by (simp add: softmax_def sum_model_def image_a_def)
  have q: "softmax (sum_model (zero_at image_a 1)) ! 0 = exp (1 / 2) / (exp (1 / 2) + 1)"
    by (simp add: softmax_def sum_model_def image_a_def zero_at_def)
  have n: "length (diff_positions image_a (zero_at image_a 1)) = 1"
    by (simp add: diff_positions_def positions_def pixel_def offset_def image_a_def zero_at_def upt_rec)
  from step_reward_formula[where nxt=next_plain, OF h1 h2 h3 h4 h5 h6 h7]
  obtain env' where
    s: "step next_plain 1 ?E =
          (Inr (zero_at image_a 1,
                fmul (exp (3 / 4) / (exp (3 / 4) + 1) - exp (1 / 2) / (exp (1 / 2) + 1)) (np_exp (- 1)),
                False), env')"
    and i: "image_cur env' = zero_at image_a 1"
    and f: "fmul (exp (3 / 4) / (exp (3 / 4) + 1) - exp (1 / 2) / (exp (1 / 2) + 1)) (np_exp (- 1)) =
            Finite ((exp (3 / 4) / (exp (3 / 4) + 1) - exp (1 / 2) / (exp (1 / 2) + 1)) * exp (- 1))"
    unfolding img tc md lam bud cnt nat1 p q n by auto
  have "\<exists>env'. step next_plain 1 ?E =
        (Inr (zero_at image_a 1,
              Finite ((exp (3 / 4) / (exp (3 / 4) + 1) - exp (1 / 2) / (exp (1 / 2) + 1)) * exp (- 1)),
              False), env') \<and>
      image_cur env' = zero_at image_a 1"
    using s i unfolding f by blast
  then show ?thesis
    apply -
    apply (rule conjI, rule h1, rule conjI, rule h3, rule conjI, rule h4, rule conjI, rule h5)
    apply assumption
    done
qed

section \<open>The pixel that a step changes\<close>

text \<open>
  Claim C4, as stated: the perturbed image differs from the image before the step at
  exactly one pixel position. It fails when the addressed pixel is 0 already: on the image
  \<open>image_black\<close>, whose pixel \<open>(0, 0, 0)\<close> is 0, action 0 returns the image unchanged, so
  the two images differ at no position.
\<close>

theorem step_black_pixel_counterexample:
  "image_cur (env_of ([] :: sample list) image_black 0 20) = image_black \<and>
   fst (step next_plain 0 (env_of [] image_black 0 20)) = Inr (image_black, Finite 0, False) \<and>
   diff_positions image_black image_black = []"
  by (simp add: step_def env_of_def decode_action_def set_pixel_def image_black_def
      in_dim_def wrap_index_def offset_def compute_reward_def class_prob_def
      softmax_def flat_model_def sparsity_def diff_positions_def fmul_zero_exp_nonpos)

text \<open>
  Claim C4, amended. For every action \<open>a\<close> in \<open>[0, C * H * W)\<close> the perturbed image that
  \<open>step\<close> returns holds 0 at the position \<open>(channel, row, col)\<close> decoded from \<open>a\<close> and
  agrees with the image before the step at every other position. The two images differ at
  that one position when the pixel there was not 0, and at no position when it was 0.
\<close>

theorem step_single_pixel:
  assumes "image_shape env = (C, H, W)" "dims (image_cur env) = (C, H, W)"
    and "wf_tensor (image_cur env)"
    and "0 \<le> a" "a < int (C * H * W)"
    and "\<And>t. target_class env < length (model env t)"
    and "current_attack_count env + 1 < attack_budget env \<or>
         (\<exists>s d. nxt (dataloader env) = Inr (s, d))"
  shows "\<exists>c x y obs r done env'.
           decode_action (C, H, W) a = Inr (int c, int x, int y) \<and> c < C \<and> x < H \<and> y < W \<and>
           step nxt a env = (Inr (obs, r, done), env') \<and>
           dims obs = (C, H, W) \<and>
           pixel obs c x y = 0 \<and>
           (\<forall>c' x' y'. c' < C \<and> x' < H \<and> y' < W \<and> (c', x', y') \<noteq> (c, x, y) \<longrightarrow>
              pixel obs c' x' y' = pixel (image_cur env) c' x' y') \<and>
           diff_positions (image_cur env) obs =
             (if pixel (image_cur env) c x y = 0 then [] else [(c, x, y)])"
proof -
  let ?img = "image_cur env"
  let ?obs = "zero_at ?img (nat a)"
  obtain ci xi yi where d: "decode_action (C, H, W) a = Inr (ci, xi, yi)"
    and r: "0 \<le> ci" "ci < int C" "0 \<le> xi" "xi < int H" "0 \<le> yi" "yi < int W"
    and off: "offset (C, H, W) (nat ci) (nat xi) (nat yi) = nat a"
    using perturb_valid[OF assms(2,4,5)] by metis
  define c x y where "c = nat ci" and "x = nat xi" and "y = nat yi"
  have cxy: "int c = ci" "int x = xi" "int y = yi" "c < C" "x < H" "y < W"
    using r by (simp_all add: c_def x_def y_def)
  have off': "offset (C, H, W) c x y = nat a" using off by (simp add: c_def x_def y_def)
  from step_valid[where nxt=nxt, OF assms(1,2,4,5,6,7)] obtain rw dn env' where
    s: "step nxt a env = (Inr (?obs, rw, dn), env')" by blast
  have len: "nat a < length (elems ?img)"
    using assms(2,3,4,5) by (simp add: wf_tensor_def numel_def nat_less_iff)
  have dm: "dims ?obs = (C, H, W)" using assms(2) by (simp add: zero_at_def)
  have p0: "pixel ?obs c x y = 0"
    using len off' dm by (simp add: pixel_def zero_at_def)
  have other: "pixel ?obs c' x' y' = pixel ?img c' x' y'"
    if "c' < C" "x' < H" "y' < W" "(c', x', y') \<noteq> (c, x, y)" for c' x' y'
  proof -
    have "offset (C, H, W) c' x' y' \<noteq> offset (C, H, W) c x y"
      using offset_inj[OF that(1,2,3) cxy(4,5,6)] that(4) by blast
    then show ?thesis using off' dm assms(2) by (simp add: pixel_def zero_at_def)
  qed
  have dp: "diff_positions ?img ?obs = (if pixel ?img c x y = 0 then [] else [(c, x, y)])"
  proof (cases "pixel ?img c x y = 0")
    case True
    have "pixel ?img c' x' y' = pixel ?obs c' x' y'" if "c' < C" "x' < H" "y' < W" for c' x' y'
    proof (cases "(c', x', y') = (c, x, y)")
      case True
      then show ?thesis using p0 \<open>pixel ?img c x y = 0\<close> by simp
    next
      case False
      then show ?thesis using other[OF that] by simp
    qed
    then have "\<forall>q\<in>set (positions (C, H, W)). \<not> (case q of (c', x', y') \<Rightarrow>
             pixel ?img c' x' y' \<noteq> pixel ?obs c' x' y')"
      by (auto simp: set_positions)
    then have "filter (\<lambda>(c', x', y'). pixel ?img c' x' y' \<noteq> pixel ?obs c' x' y')
                 (positions (C, H, W)) = []"
      by (simp only: filter_empty_conv) 
    then show ?thesis using True assms(2) by (simp add: diff_positions_def)
  next
    case False
    have "filter (\<lambda>(c', x', y'). pixel ?img c' x' y' \<noteq> pixel ?obs c' x' y')
                 (positions (C, H, W)) = [(c, x, y)]"
    proof (rule filter_single[OF distinct_positions])
      show "(c, x, y) \<in> set (positions (C, H, W))" using cxy by (simp add: set_positions)
      fix q assume q: "q \<in> set (positions (C, H, W))"
      obtain c' x' y' where qq: "q = (c', x', y')" by (cases q) auto
      with q have in_img: "c' < C" "x' < H" "y' < W" by (simp_all add: set_positions)
      show "(case q of (c', x', y') \<Rightarrow> pixel ?img c' x' y' \<noteq> pixel ?obs c' x' y') \<longleftrightarrow>
                 q = (c, x, y)"
      proof (cases "(c', x', y') = (c, x, y)")
        case True
        then show ?thesis using p0 \<open>pixel ?img c x y \<noteq> 0\<close> qq by simp
      next
        case False
        have "pixel ?obs c' x' y' = pixel ?img c' x' y'" by (rule other[OF in_img False])
        then show ?thesis using False qq by simp
      qed
    qed
    then show ?thesis using False assms(2) by (simp add: diff_positions_def)
  qed
  have "decode_action (C, H, W) a = Inr (int c, int x, int y)" using d cxy by simp
  with cxy s dm p0 other dp show ?thesis by blast
qed

theorem step_single_pixel_witness:
  "image_shape (env_of ([] :: sample list) image_a 0 20) = (1, 1, 2) \<and>
   wf_tensor (image_cur (env_of ([] :: sample list) image_a 0 20)) \<and>
   (0::int) \<le> 1 \<and> (1::int) < int (1 * 1 * 2) \<and>
   (\<exists>c x y obs r done env'.
      decode_action (1, 1, 2) 1 = Inr (int c, int x, int y) \<and> c < 1 \<and> x < 1 \<and> y < 2 \<and>
      step next_plain 1 (env_of [] image_a 0 20) = (Inr (obs, r, done), env') \<and>
      dims obs = (1, 1, 2) \<and>
      pixel obs c x y = 0 \<and>
      (\<forall>c' x' y'. c' < 1 \<and> x' < 1 \<and> y' < 2 \<and> (c', x', y') \<noteq> (c, x, y) \<longrightarrow>
         pixel obs c' x' y' = pixel (image_cur (env_of ([] :: sample list) image_a 0 20)) c' x' y') \<and>
      diff_positions (image_cur (env_of ([] :: sample list) image_a 0 20)) obs =
        (if pixel (image_cur (env_of ([] :: sample list) image_a 0 20)) c x y = 0 then []
         else [(c, x, y)]))"
proof -
  let ?E = "env_of ([] :: sample list) image_a 0 20"
  have h1: "image_shape ?E = (1, 1, 2)" and h2: "dims (image_cur ?E) = (1, 1, 2)"
    and h3: "wf_tensor (image_cur ?E)"
    by (simp_all add: env_of_def image_a_def wf_tensor_def numel_def)
  have h4: "(0::int) \<le> 1" and h5: "(1::int) < int (1 * 1 * 2)" by simp_all
  have h6: "target_class ?E < length (model ?E t)" for t
    by (simp add: env_of_def flat_model_def)
  have h7: "current_attack_count ?E + 1 < attack_budget ?E \<or>
           (\<exists>s d. next_plain (dataloader ?E) = Inr (s, d))"
    by (simp add: env_of_def)
  note c = step_single_pixel[where nxt=next_plain, OF h1 h2 h3 h4 h5 h6 h7]
  show ?thesis
    apply (rule conjI, rule h1, rule conjI, rule h3, rule conjI, rule h4, rule conjI, rule h5)
    apply (rule c)
    done
qed

section \<open>Range of the reward\<close>




section \<open>Draws from the image source\<close>

text \<open>
  Claim C7. Over a dataset that is not empty, \<open>n\<close> consecutive draws from the endless
  loader succeed for every \<open>n\<close>; the \<open>k\<close>-th draw yields the entry \<open>k mod size\<close> of the
  dataset, so that iteration restarts at exhaustion. The draw of the constructor succeeds,
  and so does the draw of every \<open>reset\<close>. Over the empty dataset the first draw, and with it
  the constructor, fails with \<open>EmptyDatasetError\<close>.
\<close>

theorem endless_loader_never_exhausted:
  "(xs \<noteq> [] \<longrightarrow>
      (\<exists>e'. draws next_endless n (endless_loader xs) =
               Inr (map (\<lambda>k. xs ! (k mod length xs)) [0..<n], e') \<and> source e' = xs) \<and>
      (\<exists>env. init_env next_endless (endless_loader xs) mdl budget lam = Inr env \<and>
              source (dataloader env) = xs)) \<and>
   (source (dataloader env0) \<noteq> [] \<longrightarrow>
      (\<exists>img env'. reset next_endless env0 = (Inr img, env') \<and>
                  source (dataloader env') = source (dataloader env0))) \<and>
   next_endless (endless_loader ([] :: sample list)) = Inl EmptyDatasetError \<and>
   init_env next_endless (endless_loader []) mdl budget lam = Inl EmptyDatasetError"
proof (intro conjI impI)
  assume ne: "xs \<noteq> []"
  show "\<exists>e'. draws next_endless n (endless_loader xs) =
               Inr (map (\<lambda>k. xs ! (k mod length xs)) [0..<n], e') \<and> source e' = xs"
    using draws_endless_cycle[of "endless_loader xs" 0 n] ne by (simp add: endless_loader_def)
  obtain b e' where "next_endless (endless_loader xs) = Inr (b, e')" "source e' = xs"
    using next_endless_nonempty[of "endless_loader xs"] ne by (auto simp: endless_loader_def)
  then show "\<exists>env. init_env next_endless (endless_loader xs) mdl budget lam = Inr env \<and>
              source (dataloader env) = xs"
    by (cases b) (simp add: init_env_def)
next
  assume ne: "source (dataloader env0) \<noteq> []"
  obtain b e' where "next_endless (dataloader env0) = Inr (b, e')"
    "source e' = source (dataloader env0)"
    using next_endless_nonempty[OF ne] by blast
  then show "\<exists>img env'. reset next_endless env0 = (Inr img, env') \<and>
                  source (dataloader env') = source (dataloader env0)"
    by (cases b) (simp add: reset_def)
next
  show "next_endless (endless_loader ([] :: sample list)) = Inl EmptyDatasetError"
    by (simp add: next_endless_def endless_loader_def)
  then show "init_env next_endless (endless_loader []) mdl budget lam = Inl EmptyDatasetError"
    by (simp add: init_env_def)
qed

theorem endless_loader_never_exhausted_witness:
  "[(image_a, 0::nat), (image_b, 1)] \<noteq> [] \<and>
   (\<exists>e'. draws next_endless 3 (endless_loader [(image_a, 0::nat), (image_b, 1)]) =
      Inr ([(image_a, 0), (image_b, 1), (image_a, 0)], e')) \<and>
   (\<exists>env. init_env next_endless (endless_loader [(image_a, 0), (image_b, 1)]) flat_model 1 1 = Inr env)"
proof -
  let ?xs = "[(image_a, 0::nat), (image_b, 1)]"
  have u: "[0..<3] = [0, 1, 2]" by (simp add: upt_rec)
  have l: "length ?xs = 2" by simp
  have m: "map (\<lambda>k. ?xs ! (k mod length ?xs)) [0..<3] = [(image_a, 0), (image_b, 1), (image_a, 0)]"
    unfolding u l by simp
  have ne: "?xs \<noteq> []" by simp
  from endless_loader_never_exhausted[of ?xs 3 flat_model 1 1] ne
  have "(\<exists>e'. draws next_endless 3 (endless_loader ?xs) =
               Inr (map (\<lambda>k. ?xs ! (k mod length ?xs)) [0..<3], e') \<and> source e' = ?xs) \<and>
        (\<exists>env. init_env next_endless (endless_loader ?xs) flat_model 1 1 = Inr env \<and>
              source (dataloader env) = ?xs)"
    by blast
  then show ?thesis unfolding m by blast
qed

section \<open>The state after the last step of an episode\<close>

text \<open>
  Claim C1 says that after a call of \<open>step\<close> that returns \<open>done = True\<close> the held image
  is the image freshly drawn by the internal reset. The source assigns
  \<open>self.image = perturbed_image\<close> after the call of \<open>self.reset()\<close>, which overwrites the
  drawn image. With budget 1 and a loader that yields \<open>(image_a, 0)\<close> and then
  \<open>(image_b, 1)\<close>, the constructor holds \<open>image_a\<close>; the step on action 1 returns
  \<open>done = True\<close> and leaves the perturbed \<open>image_a\<close> as the held image, not \<open>image_b\<close>.
\<close>

theorem step_done_image_not_fresh:
  "init_env next_plain [(image_a, 0), (image_b, 1)] flat_model 1 1 =
     Inr (env_of [(image_b, 1)] image_a 0 1) \<and>
   step next_plain 1 (env_of [(image_b, 1)] image_a 0 1) =
     (Inr (zero_at image_a 1, Finite 0, True),
      (env_of [] image_b 1 1)\<lparr>image_cur := zero_at image_a 1\<rparr>) \<and>
   zero_at image_a 1 \<noteq> image_b"
  by (simp add: init_env_def step_def env_of_def decode_action_def set_pixel_def image_a_def
      image_b_def in_dim_def wrap_index_def offset_def compute_reward_def class_prob_def
      softmax_def flat_model_def sparsity_def reset_def next_plain_def zero_at_def numel_def
      fmul_zero_exp_nonpos)

text \<open>
  Claim C2 says that the held target class is always the label that the image source
  yielded with the held image. After the same step the target class is 1, the label drawn
  with \<open>image_b\<close>, and the snapshot \<open>original_image\<close> is \<open>image_b\<close>, while the held image is
  the perturbed \<open>image_a\<close>, which was drawn with label 0 and differs from \<open>image_b\<close> at both
  positions.
\<close>

theorem step_done_target_of_other_image:
  "target_class (snd (step next_plain 1 (env_of [(image_b, 1)] image_a 0 1))) = 1 \<and>
   original_image (snd (step next_plain 1 (env_of [(image_b, 1)] image_a 0 1))) = image_b \<and>
   image_cur (snd (step next_plain 1 (env_of [(image_b, 1)] image_a 0 1))) = zero_at image_a 1 \<and>
   diff_positions image_b (zero_at image_a 1) = [(0, 0, 0), (0, 0, 1)]"
  by (simp add: step_def env_of_def decode_action_def set_pixel_def image_a_def
      image_b_def in_dim_def wrap_index_def offset_def compute_reward_def class_prob_def
      softmax_def flat_model_def sparsity_def reset_def next_plain_def zero_at_def
      diff_positions_def positions_def pixel_def upt_rec)

end
